theory Spec2Isabelle
  imports Main "HOL-Library.AList" "HOL-Library.Sublist"
begin

section \<open>The parser generator of parso: \<^verbatim>\<open>parso/pgen2/pgen.py\<close>\<close>

text \<open>
  The module turns the NFA fragment of every grammar rule into a DFA
  (\<^verbatim>\<open>_make_dfas\<close>), merges equal DFA states (\<^verbatim>\<open>_simplify_dfas\<close>) and
  compiles the arcs of all DFAs into transition tables (\<^verbatim>\<open>generate_grammar\<close>,
  \<^verbatim>\<open>_make_transition\<close>).

  Python objects are compared by identity in this module (\<^verbatim>\<open>NFAState\<close> and
  \<^verbatim>\<open>ReservedString\<close> define no \<^verbatim>\<open>__eq__\<close>, and \<^verbatim>\<open>DFAState.__eq__\<close> compares arc targets
  with \<^verbatim>\<open>is\<close>). The embedding therefore names every object by a number: an NFA node and
  a DFA state by its position in the store that holds the objects, a reserved string by
  the serial number of its creation.
\<close>

subsection \<open>Exceptions\<close>

datatype error =
    AssertionError      \<comment> \<open>a failed \<^verbatim>\<open>assert\<close>\<close>
  | StopIteration       \<comment> \<open>\<^verbatim>\<open>next(iter(nfa_set))\<close> on an empty set\<close>
  | AttributeError      \<comment> \<open>\<^verbatim>\<open>getattr(token_namespace, label)\<close> on an unknown name\<close>
  | IndexError          \<comment> \<open>\<^verbatim>\<open>label[0]\<close> on an empty label\<close>
  | LiteralEvalError    \<comment> \<open>whatever \<^verbatim>\<open>ast.literal_eval\<close> raises\<close>

text \<open>A \<^verbatim>\<open>for\<close> loop whose body may raise: the first exception ends the loop.\<close>

fun for_each :: "('a \<Rightarrow> 's \<Rightarrow> error + 's) \<Rightarrow> 'a list \<Rightarrow> 's \<Rightarrow> error + 's" where
  "for_each body [] s = Inr s"
| "for_each body (x # xs) s =
     (case body x s of Inl e \<Rightarrow> Inl e | Inr s' \<Rightarrow> for_each body xs s')"

subsection \<open>The NFA, input of the module\<close>

text \<open>
  Modelled from the spec: the classes \<^verbatim>\<open>NFAState\<close> and \<^verbatim>\<open>NFAArc\<close> of
  \<^verbatim>\<open>parso.pgen2.grammar_parser\<close>, of which this module reads \<^verbatim>\<open>from_rule\<close>, \<^verbatim>\<open>arcs\<close>,
  \<^verbatim>\<open>next\<close> and \<^verbatim>\<open>nonterminal_or_string\<close>. A node has the name of its rule and a list of
  arcs; an arc has a target node and a label that is \<^verbatim>\<open>None\<close> for an epsilon arc. The nodes of all rules live in one store \<open>nfa\<close>; node \<open>n\<close>
  is the object at position \<open>n\<close>. A reference in a Python arc always points to a node,
  so a number outside the store stands for a node without arcs.
\<close>

record NFAArc =
  arc_next :: nat
  nonterminal_or_string :: "string option"

record NFAState =
  nfa_from_rule :: string
  nfa_arcs :: "NFAArc list"

type_synonym nfa = "NFAState list"

definition nfa_node :: "nfa \<Rightarrow> nat \<Rightarrow> NFAState" where
  "nfa_node g n = (if n < length g then g ! n else \<lparr>nfa_from_rule = [], nfa_arcs = []\<rparr>)"

subsection \<open>\<^verbatim>\<open>addclosure\<close>, the nested function of \<^verbatim>\<open>_make_dfas\<close>\<close>

text \<open>
  \<^verbatim>\<open>
  def addclosure(nfa_state, base_nfa_set):
      if nfa_state in base_nfa_set:
          return
      base_nfa_set.add(nfa_state)
      for nfa_arc in nfa_state.arcs:
          if nfa_arc.nonterminal_or_string is None:
              addclosure(nfa_arc.next, base_nfa_set)
  \<close>
  The set is mutated in place; the model returns it. \<open>addclosure_arcs\<close> is the
  \<^verbatim>\<open>for\<close> loop over the arcs that are still to be visited.
\<close>

function addclosure :: "nfa \<Rightarrow> nat \<Rightarrow> nat set \<Rightarrow> nat set"
  and addclosure_arcs :: "nfa \<Rightarrow> NFAArc list \<Rightarrow> nat set \<Rightarrow> nat set" where
  "addclosure g nfa_state base_nfa_set =
     (if nfa_state \<in> base_nfa_set then base_nfa_set
      else addclosure_arcs g (nfa_arcs (nfa_node g nfa_state))
             (insert nfa_state base_nfa_set))"
| "addclosure_arcs g [] base_nfa_set = base_nfa_set"
| "addclosure_arcs g (nfa_arc # rest) base_nfa_set =
     (if nonterminal_or_string nfa_arc = None
      then addclosure_arcs g rest (addclosure g (arc_next nfa_arc) base_nfa_set)
      else addclosure_arcs g rest base_nfa_set)"
  by pat_completeness auto

text \<open>
  The recursion stops although the graph may have cycles: every call that does not
  return at once adds a node to the set, and all nodes ever added are the first node or
  the target of an arc of the store, of which there are finitely many.
\<close>

definition nfa_targets :: "nfa \<Rightarrow> nat set" where
  "nfa_targets g = (\<Union>s \<in> set g. arc_next ` set (nfa_arcs s))"

lemma finite_nfa_targets: "finite (nfa_targets g)"
  by (simp add: nfa_targets_def)

lemma nfa_node_targets: "arc_next ` set (nfa_arcs (nfa_node g n)) \<subseteq> nfa_targets g"
  by (auto simp: nfa_node_def nfa_targets_def intro!: bexI [of _ "g ! n"])

lemma addclosure_dom_mono:
  "addclosure_addclosure_arcs_dom (Inl (g, n, S)) \<Longrightarrow> S \<subseteq> addclosure g n S"
  "addclosure_addclosure_arcs_dom (Inr (g, as, S)) \<Longrightarrow> S \<subseteq> addclosure_arcs g as S"
proof (induction g n S and g as S rule: addclosure_addclosure_arcs.pinduct)
  case (1 g n S)
  then show ?case by (auto simp: addclosure.psimps)
next
  case (2 g S)
  then show ?case by (simp add: addclosure_arcs.psimps)
next
  case (3 g a rest S)
  then show ?case by (auto simp: addclosure_arcs.psimps)
qed

definition closure_todo ::
    "nfa \<times> nat \<times> nat set + nfa \<times> NFAArc list \<times> nat set \<Rightarrow> nat" where
  "closure_todo x = (case x of
      Inl (g, n, S) \<Rightarrow> card (insert n (nfa_targets g) - S)
    | Inr (g, as, S) \<Rightarrow> card ((nfa_targets g \<union> arc_next ` set as) - S))"

definition closure_pending ::
    "nfa \<times> nat \<times> nat set + nfa \<times> NFAArc list \<times> nat set \<Rightarrow> nat" where
  "closure_pending x = (case x of Inl _ \<Rightarrow> 0 | Inr (g, as, S) \<Rightarrow> Suc (length as))"

lemma addclosure_terminates: "All addclosure_addclosure_arcs_dom"
proof (relation "measures [closure_todo, closure_pending]")
  show "wf (measures [closure_todo, closure_pending])" by simp
next
  fix g n and S :: "nat set"
  assume "n \<notin> S"
  have "nfa_targets g \<union> arc_next ` set (nfa_arcs (nfa_node g n)) = nfa_targets g"
    using nfa_node_targets [of g n] by blast
  moreover have "card (nfa_targets g - insert n S) < card (insert n (nfa_targets g) - S)"
    by (rule psubset_card_mono) (use \<open>n \<notin> S\<close> finite_nfa_targets in auto)
  ultimately show "(Inr (g, nfa_arcs (nfa_node g n), insert n S), Inl (g, n, S))
      \<in> measures [closure_todo, closure_pending]"
    by (simp add: closure_todo_def)
next
  fix g and a :: NFAArc and rest and S :: "nat set"
  have "card (insert (arc_next a) (nfa_targets g) - S)
      \<le> card ((nfa_targets g \<union> arc_next ` set (a # rest)) - S)"
    by (rule card_mono) (use finite_nfa_targets in auto)
  then show "(Inl (g, arc_next a, S), Inr (g, a # rest, S))
      \<in> measures [closure_todo, closure_pending]"
    by (auto simp: closure_todo_def closure_pending_def)
next
  fix g and a :: NFAArc and rest and S :: "nat set"
  assume "addclosure_addclosure_arcs_dom (Inl (g, arc_next a, S))"
  then have "S \<subseteq> addclosure g (arc_next a) S" by (rule addclosure_dom_mono)
  then have "card ((nfa_targets g \<union> arc_next ` set rest) - addclosure g (arc_next a) S)
      \<le> card ((nfa_targets g \<union> arc_next ` set (a # rest)) - S)"
    by (intro card_mono) (use finite_nfa_targets in auto)
  then show "(Inr (g, rest, addclosure g (arc_next a) S), Inr (g, a # rest, S))
      \<in> measures [closure_todo, closure_pending]"
    by (auto simp: closure_todo_def closure_pending_def)
next
  fix g and a :: NFAArc and rest and S :: "nat set"
  have "card ((nfa_targets g \<union> arc_next ` set rest) - S)
      \<le> card ((nfa_targets g \<union> arc_next ` set (a # rest)) - S)"
    by (rule card_mono) (use finite_nfa_targets in auto)
  then show "(Inr (g, rest, S), Inr (g, a # rest, S))
      \<in> measures [closure_todo, closure_pending]"
    by (auto simp: closure_todo_def closure_pending_def)
qed

termination addclosure
  by (rule addclosure_terminates)

declare addclosure.simps [simp del]

subsection \<open>\<^verbatim>\<open>DFAState\<close>, \<^verbatim>\<open>ReservedString\<close> and \<^verbatim>\<open>DFAPlan\<close>\<close>

text \<open>
  A \<^verbatim>\<open>ReservedString\<close> object has one field, \<^verbatim>\<open>value\<close>, and is compared by identity:
  \<open>rs_id\<close> is the identity of the object, the number of reserved strings created
  before it. A transition, the key of \<^verbatim>\<open>ilabel_to_plan\<close>, is an attribute of
  the token namespace or a \<^verbatim>\<open>ReservedString\<close>.
\<close>

record ReservedString =
  rs_id :: nat
  rs_value :: string

text \<open>
  Modelled from the spec: the class \<^verbatim>\<open>DFAPlan\<close> of \<^verbatim>\<open>parso.pgen2.grammar\<close>, an
  instruction that wraps the DFA state the parser moves to.
\<close>

datatype DFAPlan = DFAPlan nat

datatype 'tok transition = TokenType 'tok | Reserved ReservedString

text \<open>
  The three dictionaries of a DFA state are association lists in insertion order, as
  Python's \<^verbatim>\<open>dict\<close> is: \<open>AList.update\<close> overwrites the value of a key that is present
  and appends a key that is not. An arc holds the position of its target in the store
  of DFA states.
\<close>

record 'tok DFAState =
  from_rule :: string
  nfa_set :: "nat set"
  is_final :: bool
  arcs :: "(string \<times> nat) list"
  ilabel_to_plan :: "('tok transition \<times> DFAPlan) list"
  nonterminal_arcs :: "(string \<times> nat) list"

text \<open>
  \<^verbatim>\<open>DFAState.__init__\<close>. Of its three assertions the types answer the first and the
  third; \<^verbatim>\<open>next(iter(nfa_set))\<close> in the second raises on an empty set.
\<close>

definition DFAState_init :: "string \<Rightarrow> nat set \<Rightarrow> nat \<Rightarrow> error + 'tok DFAState" where
  "DFAState_init rule S final =
     (if S = {} then Inl StopIteration
      else Inr \<lparr>from_rule = rule, nfa_set = S, is_final = (final \<in> S), arcs = [],
                ilabel_to_plan = [], nonterminal_arcs = []\<rparr>)"

text \<open>\<^verbatim>\<open>DFAState.add_arc\<close>, with \<^verbatim>\<open>assert label not in self.arcs\<close>.\<close>

definition add_arc :: "'tok DFAState \<Rightarrow> nat \<Rightarrow> string \<Rightarrow> error + 'tok DFAState" where
  "add_arc self nxt label =
     (if label \<in> fst ` set (arcs self) then Inl AssertionError
      else Inr (self\<lparr>arcs := AList.update label nxt (arcs self)\<rparr>))"

text \<open>
  \<^verbatim>\<open>DFAState.unifystate\<close>: every arc whose target is the object \<open>old\<close> gets the
  target \<open>new\<close>. The loop runs over the items of the dictionary and assigns to keys
  that are present.
\<close>

definition unifystate :: "'tok DFAState \<Rightarrow> nat \<Rightarrow> nat \<Rightarrow> 'tok DFAState" where
  "unifystate self old new =
     self\<lparr>arcs := fold (\<lambda>(label, nxt) d. if nxt = old then AList.update label new d else d)
                    (arcs self) (arcs self)\<rparr>"

text \<open>
  \<^verbatim>\<open>DFAState.__eq__\<close>: the same finality, the same number of arcs, and every label of
  \<open>self\<close> leads in \<open>other\<close> to the same object. \<open>nfa_set\<close> is not looked at.
\<close>

definition DFAState_eq :: "'tok DFAState \<Rightarrow> 'tok DFAState \<Rightarrow> bool" where
  "DFAState_eq self other =
     (if is_final self \<noteq> is_final other then False
      else if length (arcs self) \<noteq> length (arcs other) then False
      else list_all (\<lambda>(label, nxt). map_of (arcs other) label = Some nxt) (arcs self))"

subsection \<open>\<^verbatim>\<open>_make_dfas\<close>: the powerset construction\<close>

text \<open>
  \<^verbatim>\<open>states\<close> is a list to which the loop only appends, so a DFA state is named by
  its position in that list. The order in which Python iterates over a set is not
  specified; \<open>ord\<close> is that order, a parameter of the model about which nothing is
  assumed.

  The first inner loop fills the dictionary \<^verbatim>\<open>arcs\<close> from labels to sets of nodes:
  \<^verbatim>\<open>
  for nfa_state in state.nfa_set:
      for nfa_arc in nfa_state.arcs:
          if nfa_arc.nonterminal_or_string is not None:
              nfa_set = arcs.setdefault(nfa_arc.nonterminal_or_string, set())
              addclosure(nfa_arc.next, nfa_set)
  \<close>
\<close>

definition note_arc :: "nfa \<Rightarrow> NFAArc \<Rightarrow> (string \<times> nat set) list \<Rightarrow> (string \<times> nat set) list" where
  "note_arc g nfa_arc d =
     (case nonterminal_or_string nfa_arc of
        None \<Rightarrow> d
      | Some label \<Rightarrow>
          (let nfa_set = (case map_of d label of None \<Rightarrow> {} | Some S \<Rightarrow> S)
           in AList.update label (addclosure g (arc_next nfa_arc) nfa_set) d))"

definition find_arcs :: "(nat set \<Rightarrow> nat list) \<Rightarrow> nfa \<Rightarrow> nat set \<Rightarrow> (string \<times> nat set) list" where
  "find_arcs ord g S =
     fold (\<lambda>nfa_state. fold (note_arc g) (nfa_arcs (nfa_node g nfa_state))) (ord S) []"

text \<open>
  The second inner loop, once per item of \<^verbatim>\<open>arcs\<close>:
  \<^verbatim>\<open>
  for nested_state in states:
      if nested_state.nfa_set == nfa_set:
          break
  else:
      nested_state = DFAState(start.from_rule, nfa_set, finish)
      states.append(nested_state)
  state.add_arc(nested_state, nonterminal_or_string)
  \<close>
  \<open>lookup_state\<close> is the search, \<open>connect\<close> the whole body for the state at position
  \<open>i\<close>.
\<close>

fun lookup_state :: "'tok DFAState list \<Rightarrow> nat set \<Rightarrow> nat option" where
  "lookup_state [] S = None"
| "lookup_state (nested_state # rest) S =
     (if nfa_set nested_state = S then Some 0 else map_option Suc (lookup_state rest S))"

definition nested_state_for ::
    "string \<Rightarrow> nat \<Rightarrow> nat set \<Rightarrow> 'tok DFAState list \<Rightarrow> error + ('tok DFAState list \<times> nat)" where
  "nested_state_for rule finish S states =
     (case lookup_state states S of
        Some k \<Rightarrow> Inr (states, k)
      | None \<Rightarrow>
          (case DFAState_init rule S finish of
             Inl e \<Rightarrow> Inl e
           | Inr nested_state \<Rightarrow> Inr (states @ [nested_state], length states)))"

definition connect ::
    "string \<Rightarrow> nat \<Rightarrow> nat \<Rightarrow> string \<times> nat set \<Rightarrow> 'tok DFAState list \<Rightarrow> error + 'tok DFAState list" where
  "connect rule finish i item states =
     (case nested_state_for rule finish (snd item) states of
        Inl e \<Rightarrow> Inl e
      | Inr (states', k) \<Rightarrow>
          (case add_arc (states' ! i) k (fst item) of
             Inl e \<Rightarrow> Inl e
           | Inr state \<Rightarrow> Inr (states'[i := state])))"

definition expand_state ::
    "(nat set \<Rightarrow> nat list) \<Rightarrow> nfa \<Rightarrow> string \<Rightarrow> nat \<Rightarrow> nat \<Rightarrow> 'tok DFAState list
      \<Rightarrow> error + 'tok DFAState list" where
  "expand_state ord g rule finish i states =
     for_each (connect rule finish i) (find_arcs ord g (nfa_set (states ! i))) states"

text \<open>
  The outer loop, \<^verbatim>\<open>for state in states\<close> with \<^verbatim>\<open>states\<close> growing while the loop runs. It stops:
  every set of nodes it meets holds targets of arcs of the NFA only, no two states have
  the same set, and a pass that appends no state moves on to the next position.
\<close>

lemma addclosure_bound:
  "addclosure g n S \<subseteq> S \<union> insert n (nfa_targets g)"
  "addclosure_arcs g as S \<subseteq> S \<union> nfa_targets g \<union> arc_next ` set as"
proof (induction g n S and g as S rule: addclosure_addclosure_arcs.induct)
  case (1 g n S)
  then show ?case
    using nfa_node_targets [of g n] by (subst addclosure.simps) auto
next
  case (2 g S)
  then show ?case by simp
next
  case (3 g a rest S)
  then show ?case by (auto split: if_splits)
qed

lemma addclosure_mono:
  "S \<subseteq> addclosure g n S"
  "S \<subseteq> addclosure_arcs g as S"
  using addclosure_terminates addclosure_dom_mono [of g] by blast+

lemma addclosure_self: "n \<in> addclosure g n S"
  using addclosure_mono(2) [of "insert n S" g "nfa_arcs (nfa_node g n)"]
  by (subst addclosure.simps) auto

lemma set_AList_update:
  "set (AList.update k v al) \<subseteq> insert (k, v) (set al)"
  by (induction al) auto

definition arcs_ok :: "nfa \<Rightarrow> (string \<times> nat set) list \<Rightarrow> bool" where
  "arcs_ok g d \<longleftrightarrow> distinct (map fst d) \<and> (\<forall>S \<in> snd ` set d. S \<noteq> {} \<and> S \<subseteq> nfa_targets g)"

lemma note_arc_ok:
  assumes "arcs_ok g d" and "arc_next a \<in> nfa_targets g"
  shows "arcs_ok g (note_arc g a d)"
proof (cases "nonterminal_or_string a")
  case None
  with assms show ?thesis by (simp add: note_arc_def)
next
  case (Some label)
  define S where "S = (case map_of d label of None \<Rightarrow> {} | Some S \<Rightarrow> S)"
  have S: "S \<subseteq> nfa_targets g"
  proof (cases "map_of d label")
    case None
    then show ?thesis by (simp add: S_def)
  next
    case (Some T)
    then have "(label, T) \<in> set d" by (rule map_of_SomeD)
    with assms(1) Some show ?thesis by (force simp: S_def arcs_ok_def)
  qed
  have eq: "note_arc g a d = AList.update label (addclosure g (arc_next a) S) d"
    using Some by (simp add: note_arc_def S_def)
  have "addclosure g (arc_next a) S \<subseteq> nfa_targets g"
    using addclosure_bound(1) [of g "arc_next a" S] S assms(2) by auto
  moreover have "addclosure g (arc_next a) S \<noteq> {}"
    using addclosure_self [of "arc_next a" g S] by auto
  moreover have "\<forall>T \<in> snd ` set (AList.update label (addclosure g (arc_next a) S) d).
      T = addclosure g (arc_next a) S \<or> T \<in> snd ` set d"
    using set_AList_update [of label "addclosure g (arc_next a) S" d] by force
  ultimately show ?thesis
    using assms(1) unfolding eq arcs_ok_def by (fastforce simp: distinct_update)
qed

lemma fold_note_arc_ok:
  "arcs_ok g d \<Longrightarrow> arc_next ` set as \<subseteq> nfa_targets g \<Longrightarrow> arcs_ok g (fold (note_arc g) as d)"
  by (induction as arbitrary: d) (auto intro: note_arc_ok)

lemma find_arcs_fold_ok:
  "arcs_ok g d \<Longrightarrow>
   arcs_ok g (fold (\<lambda>nfa_state. fold (note_arc g) (nfa_arcs (nfa_node g nfa_state))) ns d)"
proof (induction ns arbitrary: d)
  case Nil
  then show ?case by simp
next
  case (Cons n ns)
  have "arcs_ok g (fold (note_arc g) (nfa_arcs (nfa_node g n)) d)"
    using Cons.prems nfa_node_targets by (rule fold_note_arc_ok)
  then show ?case using Cons.IH by simp
qed

lemma find_arcs_ok: "arcs_ok g (find_arcs ord g S)"
  unfolding find_arcs_def by (rule find_arcs_fold_ok) (simp add: arcs_ok_def)

lemma lookup_state_None: "lookup_state states S = None \<longleftrightarrow> S \<notin> nfa_set ` set states"
  by (induction states) auto

lemma lookup_state_Some:
  "lookup_state states S = Some k \<Longrightarrow> k < length states \<and> nfa_set (states ! k) = S"
  by (induction states arbitrary: k) (auto split: if_splits)

lemma nested_state_for_sets:
  assumes "nested_state_for rule finish S states = Inr (states', k)"
  shows "k < length states' \<and> nfa_set (states' ! k) = S \<and>
     (states' = states \<or>
      (\<exists>s. states' = states @ [s] \<and> nfa_set s = S \<and> arcs s = [] \<and>
           is_final s = (finish \<in> S) \<and> S \<notin> nfa_set ` set states))"
  using assms
  by (auto simp: nested_state_for_def DFAState_init_def lookup_state_None nth_append
      split: option.splits if_splits dest: lookup_state_Some)

lemma connect_sets:
  assumes "connect rule finish i item states = Inr states'" and "i < length states"
  shows "map nfa_set states' = map nfa_set states \<or>
     (map nfa_set states' = map nfa_set states @ [snd item] \<and> snd item \<notin> nfa_set ` set states)"
proof -
  from assms(1) obtain states1 k state where
    n: "nested_state_for rule finish (snd item) states = Inr (states1, k)" and
    a: "add_arc (states1 ! i) k (fst item) = Inr state" and
    s: "states' = states1[i := state]"
    by (auto simp: connect_def split: sum.splits)
  from a have ns: "nfa_set state = nfa_set (states1 ! i)"
    by (auto simp: add_arc_def split: if_splits)
  have "i < length states1"
    using nested_state_for_sets [OF n] assms(2) by auto
  then have "map nfa_set states' = map nfa_set states1"
    unfolding s using ns by (simp add: map_update list_update_same_conv)
  then show ?thesis
    using nested_state_for_sets [OF n] by auto
qed

lemma connect_length:
  "connect rule finish i item states = Inr states' \<Longrightarrow> length states \<le> length states'"
  by (auto simp: connect_def nested_state_for_def split: sum.splits option.splits)

lemma for_each_connect_sets:
  assumes "for_each (connect rule finish i) items states = Inr states'" and "i < length states"
  shows "\<exists>news. map nfa_set states' = map nfa_set states @ news \<and> distinct news \<and>
     set news \<subseteq> snd ` set items \<and> set news \<inter> nfa_set ` set states = {}"
  using assms
proof (induction items arbitrary: states)
  case Nil
  then show ?case by simp
next
  case (Cons item items)
  from Cons.prems(1) obtain states1 where
    c: "connect rule finish i item states = Inr states1" and
    r: "for_each (connect rule finish i) items states1 = Inr states'"
    by (auto split: sum.splits)
  have "i < length states1" using connect_length [OF c] Cons.prems(2) by simp
  from Cons.IH [OF r this] obtain news where
    news: "map nfa_set states' = map nfa_set states1 @ news" "distinct news"
      "set news \<subseteq> snd ` set items" "set news \<inter> nfa_set ` set states1 = {}"
    by blast
  from connect_sets [OF c Cons.prems(2)] show ?case
  proof
    assume "map nfa_set states1 = map nfa_set states"
    then have "nfa_set ` set states1 = nfa_set ` set states"
      by (metis list.set_map)
    with news \<open>map nfa_set states1 = map nfa_set states\<close> show ?thesis
      by (intro exI [of _ news]) auto
  next
    assume *: "map nfa_set states1 = map nfa_set states @ [snd item] \<and>
      snd item \<notin> nfa_set ` set states"
    then have "nfa_set ` set states1 = insert (snd item) (nfa_set ` set states)"
      by (metis list.set_map set_append list.simps(15) Un_insert_right sup_bot.right_neutral empty_set)
    with news * show ?thesis
      by (intro exI [of _ "snd item # news"]) auto
  qed
qed

lemma expand_state_sets:
  assumes "expand_state ord g rule finish i states = Inr states'" and "i < length states"
  shows "\<exists>news. map nfa_set states' = map nfa_set states @ news \<and> distinct news \<and>
     set news \<subseteq> Pow (nfa_targets g) \<and> set news \<inter> nfa_set ` set states = {}"
proof -
  from for_each_connect_sets [OF assms [unfolded expand_state_def]] obtain news where
    news: "map nfa_set states' = map nfa_set states @ news" "distinct news"
      "set news \<subseteq> snd ` set (find_arcs ord g (nfa_set (states ! i)))"
      "set news \<inter> nfa_set ` set states = {}"
    by blast
  have "snd ` set (find_arcs ord g (nfa_set (states ! i))) \<subseteq> Pow (nfa_targets g)"
    using find_arcs_ok [of g ord "nfa_set (states ! i)"] by (auto simp: arcs_ok_def)
  with news show ?thesis by blast
qed

definition unseen :: "nfa \<Rightarrow> 'tok DFAState list \<Rightarrow> nat" where
  "unseen g states = card (Pow (nfa_targets g) - nfa_set ` set states)"

lemma expand_state_progress:
  assumes "expand_state ord g rule finish i states = Inr states'" and "i < length states"
  shows "unseen g states' < unseen g states \<or>
     (unseen g states' = unseen g states \<and> length states' = length states)"
proof -
  from expand_state_sets [OF assms] obtain news where
    news: "map nfa_set states' = map nfa_set states @ news"
      "set news \<subseteq> Pow (nfa_targets g)" "set news \<inter> nfa_set ` set states = {}"
    by blast
  from news(1) have img: "nfa_set ` set states' = nfa_set ` set states \<union> set news"
    by (metis list.set_map set_append)
  from news(1) have len: "length states' = length states + length news"
    by (metis length_append length_map)
  show ?thesis
  proof (cases news)
    case Nil
    with img len show ?thesis by (simp add: unseen_def)
  next
    case (Cons S rest)
    with news have "S \<in> Pow (nfa_targets g)" "S \<notin> nfa_set ` set states" by auto
    then have "Pow (nfa_targets g) - nfa_set ` set states' \<subset> Pow (nfa_targets g) - nfa_set ` set states"
      using img Cons by auto
    then have "unseen g states' < unseen g states"
      unfolding unseen_def by (intro psubset_card_mono) (simp_all add: finite_nfa_targets)
    then show ?thesis ..
  qed
qed

function make_dfas_loop ::
    "(nat set \<Rightarrow> nat list) \<Rightarrow> nfa \<Rightarrow> string \<Rightarrow> nat \<Rightarrow> 'tok DFAState list \<Rightarrow> nat
      \<Rightarrow> error + 'tok DFAState list" where
  "make_dfas_loop ord g rule finish states i =
     (if i < length states then
        (case expand_state ord g rule finish i states of
           Inl e \<Rightarrow> Inl e
         | Inr states' \<Rightarrow> make_dfas_loop ord g rule finish states' (Suc i))
      else Inr states)"
  by pat_completeness auto

lemma make_dfas_loop_terminates: "All (make_dfas_loop_dom :: _ \<times> _ \<times> _ \<times> _ \<times> 'tok DFAState list \<times> _ \<Rightarrow> bool)"
proof (relation "measures [\<lambda>(ord, g, rule, finish, states, i). unseen g states,
    \<lambda>(ord, g, rule, finish, states, i). length states - i]")
  show "wf (measures [\<lambda>(ord, g, rule, finish, states :: 'tok DFAState list, i). unseen g states,
    \<lambda>(ord, g, rule, finish, states, i). length states - i])"
    by simp
next
  fix ord g rule finish i and states states' :: "'tok DFAState list"
  assume "i < length states" "expand_state ord g rule finish i states = Inr states'"
  from expand_state_progress [OF this(2,1)]
  show "((ord, g, rule, finish, states', Suc i), (ord, g, rule, finish, states, i))
    \<in> measures [\<lambda>(ord, g, rule, finish, states, i). unseen g states,
        \<lambda>(ord, g, rule, finish, states, i). length states - i]"
    using \<open>i < length states\<close> by auto
qed

termination make_dfas_loop
  by (rule make_dfas_loop_terminates)

declare make_dfas_loop.simps [simp del]

text \<open>
  \<^verbatim>\<open>_make_dfas\<close> itself: the first state stands for the closure of \<open>start\<close>, and the
  loop begins with it.
\<close>

definition make_dfas ::
    "(nat set \<Rightarrow> nat list) \<Rightarrow> nfa \<Rightarrow> nat \<Rightarrow> nat \<Rightarrow> error + 'tok DFAState list" where
  "make_dfas ord g start finish =
     (let rule = nfa_from_rule (nfa_node g start) in
      case DFAState_init rule (addclosure g start {}) finish of
        Inl e \<Rightarrow> Inl e
      | Inr state \<Rightarrow> make_dfas_loop ord g rule finish [state] 0)"

subsection \<open>\<^verbatim>\<open>_simplify_dfas\<close>: merging equal states\<close>

text \<open>
  \<^verbatim>\<open>dfas\<close> is a Python list of references from which elements are deleted, so here a DFA
  state is named by its position in the store \<open>h\<close> of the states that \<^verbatim>\<open>_make_dfas\<close>
  created, and \<^verbatim>\<open>dfas\<close> is a list of such positions. The body of
  \<^verbatim>\<open>if state_i == state_j\<close>:
  \<^verbatim>\<open>
  del dfas[j]
  for state in dfas:
      state.unifystate(state_j, state_i)
  \<close>
\<close>

definition unify ::
    "'tok DFAState list \<Rightarrow> nat list \<Rightarrow> nat \<Rightarrow> nat \<Rightarrow> 'tok DFAState list \<times> nat list" where
  "unify h dfas i j =
     (let state_i = dfas ! i; state_j = dfas ! j;
          dfas' = take j dfas @ drop (Suc j) dfas
      in (fold (\<lambda>state h. h[state := unifystate (h ! state) state_j state_i]) dfas' h, dfas'))"

text \<open>
  The inner loop, \<^verbatim>\<open>for j in range(i + 1, len(dfas))\<close>, looks for the first
  \<^verbatim>\<open>state_j\<close> that is equal to \<^verbatim>\<open>state_i\<close>.
\<close>

definition first_equal :: "'tok DFAState list \<Rightarrow> nat list \<Rightarrow> nat \<Rightarrow> nat option" where
  "first_equal h dfas i =
     List.find (\<lambda>j. DFAState_eq (h ! (dfas ! i)) (h ! (dfas ! j))) [Suc i..<length dfas]"

lemma first_equal_Some: "first_equal h dfas i = Some j \<Longrightarrow> i < j \<and> j < length dfas"
  unfolding first_equal_def by (auto simp: find_Some_iff)

lemma length_unify:
  "j < length dfas \<Longrightarrow> unify h dfas i j = (h', dfas') \<Longrightarrow> Suc (length dfas') = length dfas"
  by (auto simp: unify_def Let_def)

text \<open>
  One pass of \<^verbatim>\<open>for i, state_i in enumerate(dfas)\<close>. After a merge \<^verbatim>\<open>break\<close> leaves
  the inner loop only: the pass goes on with the next position of the list, which is
  shorter by one now.
\<close>

function simplify_pass ::
    "'tok DFAState list \<Rightarrow> nat list \<Rightarrow> nat \<Rightarrow> bool \<Rightarrow> 'tok DFAState list \<times> nat list \<times> bool" where
  "simplify_pass h dfas i changes =
     (if i < length dfas then
        (case first_equal h dfas i of
           None \<Rightarrow> simplify_pass h dfas (Suc i) changes
         | Some j \<Rightarrow>
             (case unify h dfas i j of
                (h', dfas') \<Rightarrow> simplify_pass h' dfas' (Suc i) True))
      else (h, dfas, changes))"
  by pat_completeness auto

lemma simplify_pass_terminates:
  "All (simplify_pass_dom :: 'tok DFAState list \<times> _ \<Rightarrow> bool)"
proof (relation "measure (\<lambda>(h, dfas, i, changes). length dfas - i)")
  fix h h' :: "'tok DFAState list" and dfas dfas' i j and changes :: bool
  assume "i < length dfas" "first_equal h dfas i = Some j" "(h', dfas') = unify h dfas i j"
  then have "Suc (length dfas') = length dfas"
    using first_equal_Some [of h dfas i j] length_unify [of j dfas h i h' dfas'] by simp
  with \<open>i < length dfas\<close>
  show "((h', dfas', Suc i, True), (h, dfas, i, changes))
      \<in> measure (\<lambda>(h, dfas, i, changes). length dfas - i)"
    by simp
qed auto

termination simplify_pass
  by (rule simplify_pass_terminates)

declare simplify_pass.simps [simp del]

lemma simplify_pass_length:
  "simplify_pass h dfas i changes = (h', dfas', changes') \<Longrightarrow>
   length dfas' \<le> length dfas \<and> (changes' \<and> \<not> changes \<longrightarrow> length dfas' < length dfas)"
proof (induction h dfas i changes rule: simplify_pass.induct)
  case (1 h dfas i changes)
  show ?case
  proof (cases "i < length dfas")
    case False
    with "1.prems" show ?thesis by (simp add: simplify_pass.simps [of h dfas i])
  next
    case True
    show ?thesis
    proof (cases "first_equal h dfas i")
      case None
      with True "1.prems" "1.IH"(1) show ?thesis
        by (simp add: simplify_pass.simps [of h dfas i])
    next
      case (Some j)
      obtain h1 dfas1 where u: "unify h dfas i j = (h1, dfas1)" by force
      with True Some "1.prems" have "simplify_pass h1 dfas1 (Suc i) True = (h', dfas', changes')"
        by (simp add: simplify_pass.simps [of h dfas i])
      from "1.IH"(2) [OF True Some u [symmetric] this]
      have "length dfas' \<le> length dfas1" by simp
      moreover have "Suc (length dfas1) = length dfas"
        using first_equal_Some [OF Some] length_unify [OF _ u] by simp
      ultimately show ?thesis by simp
    qed
  qed
qed

text \<open>\<^verbatim>\<open>while changes\<close>: passes are repeated until one of them merges nothing.\<close>

function simplify_dfas ::
    "'tok DFAState list \<Rightarrow> nat list \<Rightarrow> 'tok DFAState list \<times> nat list" where
  "simplify_dfas h dfas =
     (case simplify_pass h dfas 0 False of
        (h', dfas', changes) \<Rightarrow> if changes then simplify_dfas h' dfas' else (h', dfas'))"
  by pat_completeness auto

lemma simplify_dfas_terminates:
  "All (simplify_dfas_dom :: 'tok DFAState list \<times> _ \<Rightarrow> bool)"
proof (relation "measure (\<lambda>(h, dfas). length dfas)")
  fix h h' :: "'tok DFAState list" and dfas dfas' x and changes :: bool
  assume "(h', x) = simplify_pass h dfas 0 False" "(dfas', changes) = x" "changes"
  then have "simplify_pass h dfas 0 False = (h', dfas', True)" by simp
  from simplify_pass_length [OF this]
  show "((h', dfas'), (h, dfas)) \<in> measure (\<lambda>(h, dfas). length dfas)" by simp
qed simp

termination simplify_dfas
  by (rule simplify_dfas_terminates)

declare simplify_dfas.simps [simp del]

subsection \<open>\<^verbatim>\<open>_make_transition\<close>\<close>

text \<open>
  A label is a string of characters with code points below 256, and \<open>isalpha\<close> is
  Python's \<^verbatim>\<open>str.isalpha\<close> on such a character: the letters of ASCII, and of the upper
  half the two ordinal indicators, the micro sign and the letters from \<^verbatim>\<open>U+00C0\<close> on,
  without the multiplication and the division sign. The token namespace is a partial
  function from attribute names to token types. \<^verbatim>\<open>ast.literal_eval\<close> belongs to Python's
  library and is a parameter: \<open>None\<close> where it raises, and a string where it
  returns, since a label that begins with a quote is a string token. A new
  \<^verbatim>\<open>ReservedString\<close> gets the number of entries of the table as its identity; the table has
  one entry for each object created.
\<close>

definition isalpha :: "char \<Rightarrow> bool" where
  "isalpha c =
     (let n = (of_char c :: nat)
      in (65 \<le> n \<and> n \<le> 90) \<or> (97 \<le> n \<and> n \<le> 122) \<or> n = 170 \<or> n = 181 \<or> n = 186 \<or>
         (192 \<le> n \<and> n \<le> 214) \<or> (216 \<le> n \<and> n \<le> 246) \<or> 248 \<le> n)"

definition make_transition ::
    "(string \<Rightarrow> 'tok option) \<Rightarrow> (string \<Rightarrow> string option) \<Rightarrow> (string \<times> ReservedString) list
      \<Rightarrow> string \<Rightarrow> error + ('tok transition \<times> (string \<times> ReservedString) list)" where
  "make_transition token_namespace literal_eval reserved_syntax_strings label =
     (case label of
        [] \<Rightarrow> Inl IndexError
      | c # _ \<Rightarrow>
          if isalpha c then
            (case token_namespace label of
               None \<Rightarrow> Inl AttributeError
             | Some t \<Rightarrow> Inr (TokenType t, reserved_syntax_strings))
          else if c \<noteq> CHR 0x22 \<and> c \<noteq> CHR 0x27 then Inl AssertionError
          else if take 3 label = [CHR 0x22, CHR 0x22, CHR 0x22]
                \<or> take 3 label = [CHR 0x27, CHR 0x27, CHR 0x27] then Inl AssertionError
          else
            (case literal_eval label of
               None \<Rightarrow> Inl LiteralEvalError
             | Some v \<Rightarrow>
                 (case map_of reserved_syntax_strings v of
                    Some r \<Rightarrow> Inr (Reserved r, reserved_syntax_strings)
                  | None \<Rightarrow>
                      (let r = \<lparr>rs_id = length reserved_syntax_strings, rs_value = v\<rparr>
                       in Inr (Reserved r, reserved_syntax_strings @ [(v, r)])))))"

subsection \<open>\<^verbatim>\<open>generate_grammar\<close>\<close>

text \<open>
  \<open>fragments\<close> is the list of \<^verbatim>\<open>(nfa_a, nfa_z)\<close> pairs that
  \<^verbatim>\<open>GrammarParser(bnf_grammar).parse()\<close> yields. The first loop builds and simplifies the DFA of
  each rule; a rule's entry of \<^verbatim>\<open>rule_to_dfas\<close> is the store of its DFA states together
  with the list \<^verbatim>\<open>dfas\<close>.
\<close>

fun build_rule ::
    "(nat set \<Rightarrow> nat list) \<Rightarrow> nfa \<Rightarrow> nat \<times> nat
      \<Rightarrow> (string \<times> 'tok DFAState list \<times> nat list) list \<times> string option
      \<Rightarrow> error + (string \<times> 'tok DFAState list \<times> nat list) list \<times> string option" where
  "build_rule ord g (nfa_a, nfa_z) (rule_to_dfas, start_nonterminal) =
     (case make_dfas ord g nfa_a nfa_z of
        Inl e \<Rightarrow> Inl e
      | Inr states \<Rightarrow>
          Inr (AList.update (nfa_from_rule (nfa_node g nfa_a))
                 (simplify_dfas states [0..<length states]) rule_to_dfas,
               if start_nonterminal = None then Some (nfa_from_rule (nfa_node g nfa_a))
               else start_nonterminal))"

text \<open>
  The second loop, from the innermost body outwards: one arc, one state, one rule.
  \<open>rules\<close> is the list of keys of \<^verbatim>\<open>rule_to_dfas\<close>.
\<close>

fun compile_arc ::
    "(string \<Rightarrow> 'tok option) \<Rightarrow> (string \<Rightarrow> string option) \<Rightarrow> string list \<Rightarrow> string \<times> nat
      \<Rightarrow> 'tok DFAState \<times> (string \<times> ReservedString) list
      \<Rightarrow> error + 'tok DFAState \<times> (string \<times> ReservedString) list" where
  "compile_arc token_namespace literal_eval rules (terminal_or_nonterminal, next_dfa)
       (dfa_state, reserved_strings) =
     (if terminal_or_nonterminal \<in> set rules then
        Inr (dfa_state\<lparr>nonterminal_arcs :=
               AList.update terminal_or_nonterminal next_dfa (nonterminal_arcs dfa_state)\<rparr>,
             reserved_strings)
      else
        (case make_transition token_namespace literal_eval reserved_strings
                terminal_or_nonterminal of
           Inl e \<Rightarrow> Inl e
         | Inr (transition, reserved_strings') \<Rightarrow>
             Inr (dfa_state\<lparr>ilabel_to_plan :=
                    AList.update transition (DFAPlan next_dfa) (ilabel_to_plan dfa_state)\<rparr>,
                  reserved_strings')))"

fun compile_state ::
    "(string \<Rightarrow> 'tok option) \<Rightarrow> (string \<Rightarrow> string option) \<Rightarrow> string list \<Rightarrow> nat
      \<Rightarrow> 'tok DFAState list \<times> (string \<times> ReservedString) list
      \<Rightarrow> error + 'tok DFAState list \<times> (string \<times> ReservedString) list" where
  "compile_state token_namespace literal_eval rules a (h, reserved_strings) =
     (case for_each (compile_arc token_namespace literal_eval rules) (arcs (h ! a))
             (h ! a, reserved_strings) of
        Inl e \<Rightarrow> Inl e
      | Inr (dfa_state, reserved_strings') \<Rightarrow> Inr (h[a := dfa_state], reserved_strings'))"

fun compile_rule ::
    "(string \<Rightarrow> 'tok option) \<Rightarrow> (string \<Rightarrow> string option) \<Rightarrow> string list
      \<Rightarrow> string \<times> 'tok DFAState list \<times> nat list
      \<Rightarrow> (string \<times> 'tok DFAState list \<times> nat list) list \<times> (string \<times> ReservedString) list
      \<Rightarrow> error + (string \<times> 'tok DFAState list \<times> nat list) list \<times> (string \<times> ReservedString) list" where
  "compile_rule token_namespace literal_eval rules (nonterminal, h, dfas)
       (compiled, reserved_strings) =
     (case for_each (compile_state token_namespace literal_eval rules) dfas
             (h, reserved_strings) of
        Inl e \<Rightarrow> Inl e
      | Inr (h', reserved_strings') \<Rightarrow>
          Inr (compiled @ [(nonterminal, h', dfas)], reserved_strings'))"

text \<open>
  Modelled from the spec: the class \<^verbatim>\<open>Grammar\<close> of \<^verbatim>\<open>parso.pgen2.grammar\<close>, the root object
  that holds the name of the start rule, the DFA states of every rule and the table of
  reserved strings.
\<close>

record 'tok Grammar =
  start_nonterminal :: "string option"
  nonterminal_to_dfas :: "(string \<times> 'tok DFAState list \<times> nat list) list"
  reserved_syntax_strings :: "(string \<times> ReservedString) list"

definition generate_grammar ::
    "(nat set \<Rightarrow> nat list) \<Rightarrow> (string \<Rightarrow> 'tok option) \<Rightarrow> (string \<Rightarrow> string option)
      \<Rightarrow> nfa \<Rightarrow> (nat \<times> nat) list \<Rightarrow> error + 'tok Grammar" where
  "generate_grammar ord token_namespace literal_eval g fragments =
     (case for_each (build_rule ord g) fragments ([], None) of
        Inl e \<Rightarrow> Inl e
      | Inr (rule_to_dfas, start) \<Rightarrow>
          (case for_each (compile_rule token_namespace literal_eval (map fst rule_to_dfas))
                  rule_to_dfas ([], []) of
             Inl e \<Rightarrow> Inl e
           | Inr (compiled, reserved_strings) \<Rightarrow>
               Inr \<lparr>start_nonterminal = start, nonterminal_to_dfas = compiled,
                     reserved_syntax_strings = reserved_strings\<rparr>))"

section \<open>Notions used in the properties\<close>

text \<open>
  The epsilon closure of a node: the nodes that are reachable from it over arcs without a
  label, and the node itself.
  \<open>epsilon_targets\<close> are the targets of the unlabelled arcs of a list.
\<close>

definition epsilon_arcs :: "nfa \<Rightarrow> (nat \<times> nat) set" where
  "epsilon_arcs g =
     {(m, n). \<exists>a \<in> set (nfa_arcs (nfa_node g m)). nonterminal_or_string a = None \<and> arc_next a = n}"

definition epsilon_closure :: "nfa \<Rightarrow> nat \<Rightarrow> nat set" where
  "epsilon_closure g n = {m. (n, m) \<in> (epsilon_arcs g)\<^sup>*}"

definition epsilon_targets :: "NFAArc list \<Rightarrow> nat set" where
  "epsilon_targets as = arc_next ` {a \<in> set as. nonterminal_or_string a = None}"

text \<open>The states after position \<open>i\<close> have no arcs yet.\<close>

definition unexpanded :: "nat \<Rightarrow> 'tok DFAState list \<Rightarrow> bool" where
  "unexpanded i states \<longleftrightarrow> (\<forall>k. i \<le> k \<and> k < length states \<longrightarrow> arcs (states ! k) = [])"

text \<open>
  The table of reserved strings as \<^verbatim>\<open>_make_transition\<close> fills it, beginning with the empty
  one: the entry at position \<open>n\<close> holds the object with identity \<open>n\<close>, whose value is
  the key of the entry. A label \<open>resolves\<close> to a transition in a table if
  \<^verbatim>\<open>_make_transition\<close> returns this transition and leaves the table as it is, for the
  table and for every table that continues it. \<open>literal_label\<close> holds for the labels
  that reach \<^verbatim>\<open>literal_eval\<close>.
\<close>

definition interned :: "(string \<times> ReservedString) list \<Rightarrow> bool" where
  "interned r \<longleftrightarrow> (\<forall>n < length r. snd (r ! n) = \<lparr>rs_id = n, rs_value = fst (r ! n)\<rparr>)"

definition resolves ::
    "(string \<Rightarrow> 'tok option) \<Rightarrow> (string \<Rightarrow> string option) \<Rightarrow> (string \<times> ReservedString) list
      \<Rightarrow> string \<Rightarrow> 'tok transition \<Rightarrow> bool" where
  "resolves token_namespace literal_eval r label t \<longleftrightarrow>
     (\<forall>r'. prefix r r' \<longrightarrow> make_transition token_namespace literal_eval r' label = Inr (t, r'))"

definition literal_label :: "string \<Rightarrow> bool" where
  "literal_label label \<longleftrightarrow>
     label \<noteq> [] \<and> (hd label = CHR 0x22 \<or> hd label = CHR 0x27) \<and>
     take 3 label \<noteq> [CHR 0x22, CHR 0x22, CHR 0x22] \<and>
     take 3 label \<noteq> [CHR 0x27, CHR 0x27, CHR 0x27]"

text \<open>
  The states of a store before the second loop of \<^verbatim>\<open>generate_grammar\<close> has visited
  them, and the names of the rules of a list of fragments.
\<close>

definition uncompiled :: "'tok DFAState list \<Rightarrow> bool" where
  "uncompiled h \<longleftrightarrow>
     (\<forall>s \<in> set h. distinct (map fst (arcs s)) \<and> ilabel_to_plan s = [] \<and> nonterminal_arcs s = [])"

definition rule_names :: "nfa \<Rightarrow> (nat \<times> nat) list \<Rightarrow> string set" where
  "rule_names g fragments = (\<lambda>(nfa_a, nfa_z). nfa_from_rule (nfa_node g nfa_a)) ` set fragments"

text \<open>
  Modelled from the spec: the minimizer as the specification words it. All pairs
  \<open>(i, j)\<close> with \<open>i < j\<close> are scanned; if state \<open>i\<close> equals state \<open>j\<close>, state \<open>j\<close> is
  removed from the list and the edges to it are rewritten; the pair scan is restarted after
  every merge, and the procedure ends when a full scan performs no merge. \<open>first_pair\<close>
  is the first pair of equal states that a scan from the beginning of the list meets, and
  the merge itself is the one of the source, \<open>unify\<close>. \<open>spec_simplify_dfas\<close> is here to
  be compared with \<open>simplify_dfas\<close>, which is the code.
\<close>

fun first_pair :: "'tok DFAState list \<Rightarrow> nat list \<Rightarrow> nat list \<Rightarrow> (nat \<times> nat) option" where
  "first_pair h dfas [] = None"
| "first_pair h dfas (i # rest) =
     (case first_equal h dfas i of
        Some j \<Rightarrow> Some (i, j)
      | None \<Rightarrow> first_pair h dfas rest)"

lemma first_pair_Some:
  "first_pair h dfas scan = Some (i, j) \<Longrightarrow> first_equal h dfas i = Some j"
  by (induction scan) (auto split: option.splits)

function spec_simplify_dfas ::
    "'tok DFAState list \<Rightarrow> nat list \<Rightarrow> 'tok DFAState list \<times> nat list" where
  "spec_simplify_dfas h dfas =
     (case first_pair h dfas [0..<length dfas] of
        None \<Rightarrow> (h, dfas)
      | Some (i, j) \<Rightarrow>
          (case unify h dfas i j of (h', dfas') \<Rightarrow> spec_simplify_dfas h' dfas'))"
  by pat_completeness auto

lemma spec_simplify_dfas_terminates:
  "All (spec_simplify_dfas_dom :: 'tok DFAState list \<times> _ \<Rightarrow> bool)"
proof (relation "measure (\<lambda>(h, dfas). length dfas)")
  fix h h' :: "'tok DFAState list" and dfas dfas' x i j
  assume "first_pair h dfas [0..<length dfas] = Some x" "(i, j) = x" "(h', dfas') = unify h dfas i j"
  then have "first_equal h dfas i = Some j" and u: "unify h dfas i j = (h', dfas')"
    by (auto dest: first_pair_Some)
  from first_equal_Some [OF this(1)] length_unify [OF _ u]
  show "((h', dfas'), (h, dfas)) \<in> measure (\<lambda>(h, dfas). length dfas)" by simp
qed simp

termination spec_simplify_dfas
  by (rule spec_simplify_dfas_terminates)

declare spec_simplify_dfas.simps [simp del]

text \<open>
  The targets of the arcs of a list, in the order of the list, whose labels are no names of
  rules and resolve to the transition \<open>t\<close> in the table \<open>r\<close>: the arcs whose plans are
  stored under the same key of \<^verbatim>\<open>ilabel_to_plan\<close>.
\<close>

definition key_targets ::
    "(string \<Rightarrow> 'tok option) \<Rightarrow> (string \<Rightarrow> string option) \<Rightarrow> (string \<times> ReservedString) list
      \<Rightarrow> string list \<Rightarrow> (string \<times> nat) list \<Rightarrow> 'tok transition \<Rightarrow> nat list" where
  "key_targets token_namespace literal_eval r rules as t =
     map snd (filter (\<lambda>(label, nxt). label \<notin> set rules \<and>
       make_transition token_namespace literal_eval r label = Inr (t, r)) as)"

section \<open>Inputs for the examples\<close>

text \<open>
  Small NFAs, and the values that the functions above return on them. In the examples
  Python's sets are iterated in the order of the numbers of the nodes.
\<close>

text \<open>
  A stand-in for \<^verbatim>\<open>ast.literal_eval\<close> on literals without escape sequences: it strips
  the quotes and rejects whatever does not end with the quote it begins with.
\<close>

definition unquote :: "string \<Rightarrow> string option" where
  "unquote label =
     (if 2 \<le> length label \<and> hd label = last label then Some (butlast (tl label)) else None)"

text \<open>A token namespace with three token types.\<close>

definition token_types :: "string \<Rightarrow> nat option" where
  "token_types = [''NAME'' \<mapsto> 1, ''NUMBER'' \<mapsto> 2, ''STRING'' \<mapsto> 3]"

text \<open>The NFA of the rule \<^verbatim>\<open>item: FOO\<close>, from node 0 to node 1.\<close>

definition nfa_foo :: nfa where
  "nfa_foo =
     [\<lparr>nfa_from_rule = ''item'',
       nfa_arcs = [\<lparr>arc_next = 1, nonterminal_or_string = Some ''FOO''\<rparr>]\<rparr>,
      \<lparr>nfa_from_rule = ''item'', nfa_arcs = []\<rparr>]"

text \<open>
  The NFA of the rule \<^verbatim>\<open>item: NAME | NUMBER\<close>, from node 0 to node 1; the second
  alternative begins at node 2, which an epsilon arc joins to node 0.
\<close>

definition nfa_a_or_b :: nfa where
  "nfa_a_or_b =
     [\<lparr>nfa_from_rule = ''item'',
       nfa_arcs = [\<lparr>arc_next = 1, nonterminal_or_string = Some ''NAME''\<rparr>,
                   \<lparr>arc_next = 2, nonterminal_or_string = None\<rparr>]\<rparr>,
      \<lparr>nfa_from_rule = ''item'', nfa_arcs = []\<rparr>,
      \<lparr>nfa_from_rule = ''item'',
       nfa_arcs = [\<lparr>arc_next = 1, nonterminal_or_string = Some ''NUMBER''\<rparr>]\<rparr>]"

text \<open>
  Two nodes on a cycle: node 0 has an epsilon arc to itself and goes to node 1 on
  \<^verbatim>\<open>NAME\<close>, node 1 has an epsilon arc back to node 0.
\<close>

definition nfa_loop :: nfa where
  "nfa_loop =
     [\<lparr>nfa_from_rule = ''item'',
       nfa_arcs = [\<lparr>arc_next = 0, nonterminal_or_string = None\<rparr>,
                   \<lparr>arc_next = 1, nonterminal_or_string = Some ''NAME''\<rparr>]\<rparr>,
      \<lparr>nfa_from_rule = ''item'',
       nfa_arcs = [\<lparr>arc_next = 0, nonterminal_or_string = None\<rparr>]\<rparr>]"

text \<open>
  The NFA of the rule \<^verbatim>\<open>item: NAME STRING | NUMBER STRING\<close>, from node 0 to node 3,
  the DFA states that \<^verbatim>\<open>_make_dfas\<close> builds for it, and these states after
  \<^verbatim>\<open>_simplify_dfas\<close> has merged the state at position 2 into the one at position 1.
\<close>

definition nfa_merge :: nfa where
  "nfa_merge =
     [\<lparr>nfa_from_rule = ''item'',
       nfa_arcs = [\<lparr>arc_next = 1, nonterminal_or_string = Some ''NAME''\<rparr>,
                   \<lparr>arc_next = 2, nonterminal_or_string = Some ''NUMBER''\<rparr>]\<rparr>,
      \<lparr>nfa_from_rule = ''item'',
       nfa_arcs = [\<lparr>arc_next = 3, nonterminal_or_string = Some ''STRING''\<rparr>]\<rparr>,
      \<lparr>nfa_from_rule = ''item'',
       nfa_arcs = [\<lparr>arc_next = 3, nonterminal_or_string = Some ''STRING''\<rparr>]\<rparr>,
      \<lparr>nfa_from_rule = ''item'', nfa_arcs = []\<rparr>]"

definition states_merge :: "nat DFAState list" where
  "states_merge =
     [\<lparr>from_rule = ''item'', nfa_set = {0}, is_final = False,
       arcs = [(''NAME'', 1), (''NUMBER'', 2)], ilabel_to_plan = [], nonterminal_arcs = []\<rparr>,
      \<lparr>from_rule = ''item'', nfa_set = {1}, is_final = False,
       arcs = [(''STRING'', 3)], ilabel_to_plan = [], nonterminal_arcs = []\<rparr>,
      \<lparr>from_rule = ''item'', nfa_set = {2}, is_final = False,
       arcs = [(''STRING'', 3)], ilabel_to_plan = [], nonterminal_arcs = []\<rparr>,
      \<lparr>from_rule = ''item'', nfa_set = {3}, is_final = True, arcs = [],
       ilabel_to_plan = [], nonterminal_arcs = []\<rparr>]"

definition states_merged :: "nat DFAState list" where
  "states_merged = states_merge[0 := (states_merge ! 0)\<lparr>arcs := [(''NAME'', 1), (''NUMBER'', 1)]\<rparr>]"

text \<open>The DFA states that \<^verbatim>\<open>_make_dfas\<close> builds for \<open>nfa_a_or_b\<close> and for \<open>nfa_loop\<close>.\<close>

definition states_a_or_b :: "nat DFAState list" where
  "states_a_or_b =
     [\<lparr>from_rule = ''item'', nfa_set = {0, 2}, is_final = False,
       arcs = [(''NAME'', 1), (''NUMBER'', 1)], ilabel_to_plan = [], nonterminal_arcs = []\<rparr>,
      \<lparr>from_rule = ''item'', nfa_set = {1}, is_final = True, arcs = [],
       ilabel_to_plan = [], nonterminal_arcs = []\<rparr>]"

definition states_loop :: "nat DFAState list" where
  "states_loop =
     [\<lparr>from_rule = ''item'', nfa_set = {0}, is_final = False, arcs = [(''NAME'', 1)],
       ilabel_to_plan = [], nonterminal_arcs = []\<rparr>,
      \<lparr>from_rule = ''item'', nfa_set = {0, 1}, is_final = True, arcs = [(''NAME'', 1)],
       ilabel_to_plan = [], nonterminal_arcs = []\<rparr>]"

text \<open>
  The NFA of the two rules \<^verbatim>\<open>stmt: 'if' other\<close> (nodes 0 to 2) and
  \<^verbatim>\<open>other: NAME "if"\<close> (nodes 3 to 5), and the grammar that \<^verbatim>\<open>generate_grammar\<close>
  compiles from it.
\<close>

definition nfa_if :: nfa where
  "nfa_if =
     [\<lparr>nfa_from_rule = ''stmt'',
       nfa_arcs = [\<lparr>arc_next = 1, nonterminal_or_string = Some (CHR 0x27 # ''if'' @ [CHR 0x27])\<rparr>]\<rparr>,
      \<lparr>nfa_from_rule = ''stmt'',
       nfa_arcs = [\<lparr>arc_next = 2, nonterminal_or_string = Some ''other''\<rparr>]\<rparr>,
      \<lparr>nfa_from_rule = ''stmt'', nfa_arcs = []\<rparr>,
      \<lparr>nfa_from_rule = ''other'',
       nfa_arcs = [\<lparr>arc_next = 4, nonterminal_or_string = Some ''NAME''\<rparr>]\<rparr>,
      \<lparr>nfa_from_rule = ''other'',
       nfa_arcs = [\<lparr>arc_next = 5, nonterminal_or_string = Some (CHR 0x22 # ''if'' @ [CHR 0x22])\<rparr>]\<rparr>,
      \<lparr>nfa_from_rule = ''other'', nfa_arcs = []\<rparr>]"

definition stmt_states :: "nat DFAState list" where
  "stmt_states =
     [\<lparr>from_rule = ''stmt'', nfa_set = {0}, is_final = False,
       arcs = [(CHR 0x27 # ''if'' @ [CHR 0x27], 1)],
       ilabel_to_plan = [(Reserved \<lparr>rs_id = 0, rs_value = ''if''\<rparr>, DFAPlan 1)],
       nonterminal_arcs = []\<rparr>,
      \<lparr>from_rule = ''stmt'', nfa_set = {1}, is_final = False,
       arcs = [(''other'', 2)], ilabel_to_plan = [], nonterminal_arcs = [(''other'', 2)]\<rparr>,
      \<lparr>from_rule = ''stmt'', nfa_set = {2}, is_final = True,
       arcs = [], ilabel_to_plan = [], nonterminal_arcs = []\<rparr>]"

definition other_states :: "nat DFAState list" where
  "other_states =
     [\<lparr>from_rule = ''other'', nfa_set = {3}, is_final = False,
       arcs = [(''NAME'', 1)], ilabel_to_plan = [(TokenType 1, DFAPlan 1)],
       nonterminal_arcs = []\<rparr>,
      \<lparr>from_rule = ''other'', nfa_set = {4}, is_final = False,
       arcs = [(CHR 0x22 # ''if'' @ [CHR 0x22], 2)],
       ilabel_to_plan = [(Reserved \<lparr>rs_id = 0, rs_value = ''if''\<rparr>, DFAPlan 2)],
       nonterminal_arcs = []\<rparr>,
      \<lparr>from_rule = ''other'', nfa_set = {5}, is_final = True,
       arcs = [], ilabel_to_plan = [], nonterminal_arcs = []\<rparr>]"

definition grammar_if :: "nat Grammar" where
  "grammar_if =
     \<lparr>start_nonterminal = Some ''stmt'',
      nonterminal_to_dfas = [(''stmt'', stmt_states, [0, 1, 2]), (''other'', other_states, [0, 1, 2])],
      reserved_syntax_strings = [(''if'', \<lparr>rs_id = 0, rs_value = ''if''\<rparr>)]\<rparr>"

text \<open>
  A list of six states, built by hand: the states at positions 2 and 3 are final and have
  no arcs, the states at positions 4 and 5 are not final and have no arcs, and the states
  at positions 0 and 1 differ in the target of \<^verbatim>\<open>NAME\<close> only, which is the state at
  position 2 for the one and the state at position 3 for the other. Then the store after
  the state at position 3 has been merged into the one at position 2, the store that
  \<^verbatim>\<open>_simplify_dfas\<close> leaves, and the store that a scan leaves which is restarted after
  every merge.
\<close>

definition states_six :: "nat DFAState list" where
  "states_six =
     [\<lparr>from_rule = ''item'', nfa_set = {0}, is_final = False,
       arcs = [(''NAME'', 2), (''NUMBER'', 5)], ilabel_to_plan = [], nonterminal_arcs = []\<rparr>,
      \<lparr>from_rule = ''item'', nfa_set = {1}, is_final = False,
       arcs = [(''NAME'', 3), (''NUMBER'', 5)], ilabel_to_plan = [], nonterminal_arcs = []\<rparr>,
      \<lparr>from_rule = ''item'', nfa_set = {2}, is_final = True, arcs = [],
       ilabel_to_plan = [], nonterminal_arcs = []\<rparr>,
      \<lparr>from_rule = ''item'', nfa_set = {3}, is_final = True, arcs = [],
       ilabel_to_plan = [], nonterminal_arcs = []\<rparr>,
      \<lparr>from_rule = ''item'', nfa_set = {4}, is_final = False, arcs = [],
       ilabel_to_plan = [], nonterminal_arcs = []\<rparr>,
      \<lparr>from_rule = ''item'', nfa_set = {5}, is_final = False, arcs = [],
       ilabel_to_plan = [], nonterminal_arcs = []\<rparr>]"

definition states_six_once :: "nat DFAState list" where
  "states_six_once =
     states_six[1 := (states_six ! 1)\<lparr>arcs := [(''NAME'', 2), (''NUMBER'', 5)]\<rparr>]"

definition states_six_code :: "nat DFAState list" where
  "states_six_code =
     states_six[0 := (states_six ! 0)\<lparr>arcs := [(''NAME'', 2), (''NUMBER'', 4)]\<rparr>,
                1 := (states_six ! 1)\<lparr>arcs := [(''NAME'', 2), (''NUMBER'', 4)]\<rparr>]"

definition states_six_spec :: "nat DFAState list" where
  "states_six_spec =
     states_six[0 := (states_six ! 0)\<lparr>arcs := [(''NAME'', 2), (''NUMBER'', 4)]\<rparr>,
                1 := (states_six ! 1)\<lparr>arcs := [(''NAME'', 2), (''NUMBER'', 5)]\<rparr>]"

text \<open>
  The NFA of the rule \<^verbatim>\<open>item: 'if' NAME | "if" NUMBER\<close>, from node 0 to node 1, whose
  two literals are written with different quotes and have the same value, and the grammar
  that \<^verbatim>\<open>generate_grammar\<close> compiles from it.
\<close>

definition nfa_item :: nfa where
  "nfa_item =
     [\<lparr>nfa_from_rule = ''item'',
       nfa_arcs = [\<lparr>arc_next = 2, nonterminal_or_string = Some (CHR 0x27 # ''if'' @ [CHR 0x27])\<rparr>,
                   \<lparr>arc_next = 3, nonterminal_or_string = Some (CHR 0x22 # ''if'' @ [CHR 0x22])\<rparr>]\<rparr>,
      \<lparr>nfa_from_rule = ''item'', nfa_arcs = []\<rparr>,
      \<lparr>nfa_from_rule = ''item'',
       nfa_arcs = [\<lparr>arc_next = 1, nonterminal_or_string = Some ''NAME''\<rparr>]\<rparr>,
      \<lparr>nfa_from_rule = ''item'',
       nfa_arcs = [\<lparr>arc_next = 1, nonterminal_or_string = Some ''NUMBER''\<rparr>]\<rparr>]"

definition item_states :: "nat DFAState list" where
  "item_states =
     [\<lparr>from_rule = ''item'', nfa_set = {0}, is_final = False,
       arcs = [(CHR 0x27 # ''if'' @ [CHR 0x27], 1), (CHR 0x22 # ''if'' @ [CHR 0x22], 2)],
       ilabel_to_plan = [(Reserved \<lparr>rs_id = 0, rs_value = ''if''\<rparr>, DFAPlan 2)],
       nonterminal_arcs = []\<rparr>,
      \<lparr>from_rule = ''item'', nfa_set = {2}, is_final = False,
       arcs = [(''NAME'', 3)], ilabel_to_plan = [(TokenType 1, DFAPlan 3)],
       nonterminal_arcs = []\<rparr>,
      \<lparr>from_rule = ''item'', nfa_set = {3}, is_final = False,
       arcs = [(''NUMBER'', 3)], ilabel_to_plan = [(TokenType 2, DFAPlan 3)],
       nonterminal_arcs = []\<rparr>,
      \<lparr>from_rule = ''item'', nfa_set = {1}, is_final = True,
       arcs = [], ilabel_to_plan = [], nonterminal_arcs = []\<rparr>]"

definition grammar_item :: "nat Grammar" where
  "grammar_item =
     \<lparr>start_nonterminal = Some ''item'',
      nonterminal_to_dfas = [(''item'', item_states, [0, 1, 2, 3])],
      reserved_syntax_strings = [(''if'', \<lparr>rs_id = 0, rs_value = ''if''\<rparr>)]\<rparr>"

section \<open>Properties\<close>

subsection \<open>A grammar without rules\<close>

text \<open>
  C10: when the grammar parser yields no NFA fragment, \<^verbatim>\<open>generate_grammar\<close> raises
  nothing and returns the grammar whose start nonterminal is \<^verbatim>\<open>None\<close>, whose table of
  rules is empty and whose table of reserved strings is empty.
\<close>

theorem generate_grammar_no_rules:
  "generate_grammar ord token_namespace literal_eval g [] =
     Inr \<lparr>start_nonterminal = None, nonterminal_to_dfas = [], reserved_syntax_strings = []\<rparr>"
  by (simp add: generate_grammar_def)

subsection \<open>Loops that raise\<close>

lemma for_each_invariant:
  assumes "for_each body xs s = Inr s'" and "P s"
    and "\<And>x s s'. x \<in> set xs \<Longrightarrow> P s \<Longrightarrow> body x s = Inr s' \<Longrightarrow> P s'"
  shows "P s'"
  using assms
proof (induction xs arbitrary: s)
  case Nil
  then show ?case by simp
next
  case (Cons x xs)
  from Cons.prems(1) obtain s1 where b: "body x s = Inr s1" and r: "for_each body xs s1 = Inr s'"
    by (auto split: sum.splits)
  have "P s1" using Cons.prems(2) b by (auto intro: Cons.prems(3))
  with r show ?case by (rule Cons.IH) (auto intro: Cons.prems(3))
qed

lemma for_each_raises:
  assumes "x \<in> set xs" and "P s"
    and "\<And>y s s'. P s \<Longrightarrow> body y s = Inr s' \<Longrightarrow> P s'"
    and "\<And>s. P s \<Longrightarrow> \<exists>e. body x s = Inl e"
  shows "\<exists>e. for_each body xs s = Inl e"
  using assms(1,2)
proof (induction xs arbitrary: s)
  case Nil
  then show ?case by simp
next
  case (Cons y ys)
  show ?case
  proof (cases "body y s")
    case (Inl e)
    then show ?thesis by simp
  next
    case (Inr s')
    with Cons.prems(2) have P': "P s'" by (auto intro: assms(3))
    show ?thesis
    proof (cases "y = x")
      case True
      with assms(4) [OF Cons.prems(2)] Inr show ?thesis by simp
    next
      case False
      with Cons.prems(1) have "x \<in> set ys" by simp
      from Cons.IH [OF this P'] Inr show ?thesis by simp
    qed
  qed
qed

subsection \<open>Labels that \<^verbatim>\<open>_make_transition\<close> rejects\<close>

lemma make_transition_triple_quoted:
  assumes "take 3 label = [CHR 0x22, CHR 0x22, CHR 0x22] \<or> take 3 label = [CHR 0x27, CHR 0x27, CHR 0x27]"
  shows "make_transition token_namespace literal_eval reserved label = Inl AssertionError"
proof -
  from assms obtain c rest where l: "label = c # rest" and c: "c = CHR 0x22 \<or> c = CHR 0x27"
    by (cases label) auto
  from c have "\<not> isalpha c" by (auto simp: isalpha_def)
  with l c assms show ?thesis by (auto simp: make_transition_def)
qed

lemma make_transition_unknown_name:
  assumes "hd label \<noteq> CHR 0x22" "hd label \<noteq> CHR 0x27" "token_namespace label = None"
  shows "\<exists>e. make_transition token_namespace literal_eval reserved label = Inl e"
  using assms by (cases label) (auto simp: make_transition_def)

lemma compile_arc_arcs:
  "compile_arc token_namespace literal_eval rules arc (s, r) = Inr (s', r') \<Longrightarrow> arcs s' = arcs s"
  by (cases arc) (auto split: if_splits sum.splits)

lemma compile_state_arcs:
  assumes "compile_state token_namespace literal_eval rules a (h, r) = Inr (h', r')"
  shows "arcs (h' ! b) = arcs (h ! b)"
proof -
  from assms obtain s where
    f: "for_each (compile_arc token_namespace literal_eval rules) (arcs (h ! a)) (h ! a, r) = Inr (s, r')"
    and h': "h' = h[a := s]"
    by (auto split: sum.splits)
  have "arcs (fst (s, r')) = arcs (h ! a)"
    by (rule for_each_invariant [OF f, where P = "\<lambda>x. arcs (fst x) = arcs (h ! a)"])
      (auto dest: compile_arc_arcs)
  then show ?thesis
    unfolding h' by (cases "a < length h"; cases "a = b") (simp_all add: list_update_beyond)
qed

lemma compile_rules_raise:
  fixes h :: "'tok DFAState list"
  assumes bad: "\<And>r. \<exists>e. make_transition token_namespace literal_eval r label = Inl e"
    and rule: "(nonterminal, h, dfas) \<in> set rule_to_dfas"
    and state: "a \<in> set dfas"
    and arc: "(label, nxt) \<in> set (arcs (h ! a))"
    and terminal: "label \<notin> set rules"
  shows "\<exists>e. for_each (compile_rule token_namespace literal_eval rules) rule_to_dfas acc = Inl e"
proof (rule for_each_raises [OF rule, where P = "\<lambda>_. True"])
  fix acc :: "(string \<times> 'tok DFAState list \<times> nat list) list \<times> (string \<times> ReservedString) list"
  obtain compiled r where acc: "acc = (compiled, r)" by force
  have "\<exists>e. for_each (compile_state token_namespace literal_eval rules) dfas (h, r) = Inl e"
  proof (rule for_each_raises [OF state, where P = "\<lambda>x. \<forall>b. arcs (fst x ! b) = arcs (h ! b)"])
    fix y and s s' :: "'tok DFAState list \<times> (string \<times> ReservedString) list"
    assume "\<forall>b. arcs (fst s ! b) = arcs (h ! b)"
      "compile_state token_namespace literal_eval rules y s = Inr s'"
    then show "\<forall>b. arcs (fst s' ! b) = arcs (h ! b)"
      using compile_state_arcs [of token_namespace literal_eval rules y "fst s" "snd s" "fst s'" "snd s'"]
      by simp
  next
    fix s :: "'tok DFAState list \<times> (string \<times> ReservedString) list"
    assume P: "\<forall>b. arcs (fst s ! b) = arcs (h ! b)"
    obtain h1 r1 where s: "s = (h1, r1)" by force
    with P arc have arc1: "(label, nxt) \<in> set (arcs (h1 ! a))" by simp
    have "\<exists>e. for_each (compile_arc token_namespace literal_eval rules) (arcs (h1 ! a)) (h1 ! a, r1) = Inl e"
    proof (rule for_each_raises [OF arc1, where P = "\<lambda>_. True"])
      fix x :: "'tok DFAState \<times> (string \<times> ReservedString) list"
      obtain d r2 where x: "x = (d, r2)" by force
      from bad [of r2] terminal
      show "\<exists>e. compile_arc token_namespace literal_eval rules (label, nxt) x = Inl e"
        unfolding x by auto
    qed simp_all
    then show "\<exists>e. compile_state token_namespace literal_eval rules a s = Inl e"
      unfolding s by auto
  qed simp
  then show "\<exists>e. compile_rule token_namespace literal_eval rules (nonterminal, h, dfas) acc = Inl e"
    unfolding acc by auto
qed simp_all

text \<open>
  C9: a label that begins with three quotes, and a label that does not begin with a quote
  and is no attribute of the token namespace, make \<^verbatim>\<open>_make_transition\<close> raise, whatever
  the table of reserved strings holds; and \<^verbatim>\<open>generate_grammar\<close> raises as soon as a
  state of some rule has an arc with such a label that is not the name of a rule.
\<close>

theorem make_transition_raises:
  fixes token_namespace :: "string \<Rightarrow> 'tok option"
  assumes "take 3 label = [CHR 0x22, CHR 0x22, CHR 0x22] \<or>
      take 3 label = [CHR 0x27, CHR 0x27, CHR 0x27] \<or>
      hd label \<noteq> CHR 0x22 \<and> hd label \<noteq> CHR 0x27 \<and> token_namespace label = None"
  shows "(\<exists>e. make_transition token_namespace literal_eval reserved label = Inl e) \<and>
    (\<forall>ord g fragments (rule_to_dfas :: (string \<times> 'tok DFAState list \<times> nat list) list)
        start rule h dfas a nxt.
       for_each (build_rule ord g) fragments ([], None) = Inr (rule_to_dfas, start) \<and>
       (rule, h, dfas) \<in> set rule_to_dfas \<and> a \<in> set dfas \<and>
       (label, nxt) \<in> set (arcs (h ! a)) \<and> label \<notin> fst ` set rule_to_dfas \<longrightarrow>
       (\<exists>e. generate_grammar ord token_namespace literal_eval g fragments = Inl e))"
proof -
  have bad: "\<exists>e. make_transition token_namespace literal_eval r label = Inl e" for r
    using assms make_transition_triple_quoted [of label token_namespace literal_eval r]
      make_transition_unknown_name [of label token_namespace literal_eval r]
    by blast
  show ?thesis
  proof (intro conjI allI impI)
    show "\<exists>e. make_transition token_namespace literal_eval reserved label = Inl e"
      by (rule bad)
  next
    fix ord g fragments start rule dfas a nxt
      and rule_to_dfas :: "(string \<times> 'tok DFAState list \<times> nat list) list" and h
    assume *: "for_each (build_rule ord g) fragments ([], None) = Inr (rule_to_dfas, start) \<and>
       (rule, h, dfas) \<in> set rule_to_dfas \<and> a \<in> set dfas \<and>
       (label, nxt) \<in> set (arcs (h ! a)) \<and> label \<notin> fst ` set rule_to_dfas"
    then have "\<exists>e. for_each (compile_rule token_namespace literal_eval (map fst rule_to_dfas))
        rule_to_dfas ([], []) = Inl e"
      by (intro compile_rules_raise [OF bad, of rule h dfas _ a nxt]) auto
    with * show "\<exists>e. generate_grammar ord token_namespace literal_eval g fragments = Inl e"
      by (auto simp: generate_grammar_def)
  qed
qed

theorem make_transition_raises_witness:
  "hd ''FOO'' \<noteq> CHR 0x22 \<and> hd ''FOO'' \<noteq> CHR 0x27 \<and>
   token_types ''FOO'' = None \<and>
   (\<exists>e. make_transition token_types unquote [] ''FOO'' = Inl e) \<and>
   (\<exists>e. generate_grammar sorted_list_of_set token_types unquote
      nfa_foo [(0, 1)] = Inl e)"
proof -
  let ?h = "[\<lparr>from_rule = ''item'', nfa_set = {0}, is_final = False, arcs = [(''FOO'', 1)],
              ilabel_to_plan = [], nonterminal_arcs = []\<rparr>,
            \<lparr>from_rule = ''item'', nfa_set = {1}, is_final = True, arcs = [],
              ilabel_to_plan = [], nonterminal_arcs = []\<rparr>] :: nat DFAState list"
  have hyp: "take 3 ''FOO'' = [CHR 0x22, CHR 0x22, CHR 0x22] \<or>
      take 3 ''FOO'' = [CHR 0x27, CHR 0x27, CHR 0x27] \<or>
      hd ''FOO'' \<noteq> CHR 0x22 \<and> hd ''FOO'' \<noteq> CHR 0x27 \<and>
      token_types ''FOO'' = None"
    by (simp add: token_types_def)
  have built: "for_each (build_rule sorted_list_of_set nfa_foo) [(0, 1)] ([], None) =
      Inr ([(''item'', ?h, [0, 1])], Some ''item'')"
    by code_simp
  note inst = make_transition_raises [where label = "''FOO''" and token_namespace = token_types
      and literal_eval = unquote, OF hyp]
  from inst [of "[]"] have "\<exists>e. make_transition token_types unquote [] ''FOO'' = Inl e"
    by (rule conjunct1)
  moreover have "\<exists>e. generate_grammar sorted_list_of_set token_types unquote
      nfa_foo [(0, 1)] = Inl e"
    by (rule inst [of "[]", THEN conjunct2, rule_format,
          of sorted_list_of_set nfa_foo "[(0, 1)]" "[(''item'', ?h, [0, 1])]" "Some ''item''"
             "''item''" ?h "[0, 1]" 0 1])
      (intro conjI, rule built, simp_all)
  ultimately show ?thesis by (simp add: token_types_def)
qed

subsection \<open>\<^verbatim>\<open>addclosure\<close> computes the epsilon closure\<close>

lemma epsilon_arcs_Image: "epsilon_arcs g `` {m} = epsilon_targets (nfa_arcs (nfa_node g m))"
  by (auto simp: epsilon_arcs_def epsilon_targets_def)

lemma addclosure_sound:
  "addclosure g n S \<subseteq> S \<union> (epsilon_arcs g)\<^sup>* `` {n}"
  "addclosure_arcs g as S \<subseteq> S \<union> (epsilon_arcs g)\<^sup>* `` epsilon_targets as"
proof (induction g n S and g as S rule: addclosure_addclosure_arcs.induct)
  case (1 g n S)
  show ?case
  proof (cases "n \<in> S")
    case True
    then show ?thesis by (simp add: addclosure.simps)
  next
    case False
    have "(epsilon_arcs g)\<^sup>* `` epsilon_targets (nfa_arcs (nfa_node g n))
        \<subseteq> (epsilon_arcs g)\<^sup>* `` {n}"
      unfolding epsilon_arcs_Image [symmetric] by (auto intro: converse_rtrancl_into_rtrancl)
    with 1 [OF False] False show ?thesis
      by (subst addclosure.simps) auto
  qed
next
  case (2 g S)
  then show ?case by simp
next
  case (3 g a rest S)
  show ?case
  proof (cases "nonterminal_or_string a = None")
    case True
    have "arc_next a \<in> epsilon_targets (a # rest)" "epsilon_targets rest \<subseteq> epsilon_targets (a # rest)"
      using True by (auto simp: epsilon_targets_def)
    then have "(epsilon_arcs g)\<^sup>* `` {arc_next a} \<subseteq> (epsilon_arcs g)\<^sup>* `` epsilon_targets (a # rest)"
      "(epsilon_arcs g)\<^sup>* `` epsilon_targets rest \<subseteq> (epsilon_arcs g)\<^sup>* `` epsilon_targets (a # rest)"
      by blast+
    with 3(1,2) [OF True] True show ?thesis by simp blast
  next
    case False
    then have "epsilon_targets (a # rest) = epsilon_targets rest"
      by (auto simp: epsilon_targets_def)
    with 3(3) [OF False] False show ?thesis by auto
  qed
qed

text \<open>Every node that a call adds has its epsilon successors in the result.\<close>

lemma addclosure_closed:
  "\<forall>x \<in> addclosure g n S - S. epsilon_arcs g `` {x} \<subseteq> addclosure g n S"
  "epsilon_targets as \<subseteq> addclosure_arcs g as S \<and>
   (\<forall>x \<in> addclosure_arcs g as S - S. epsilon_arcs g `` {x} \<subseteq> addclosure_arcs g as S)"
proof (induction g n S and g as S rule: addclosure_addclosure_arcs.induct)
  case (1 g n S)
  show ?case
  proof (cases "n \<in> S")
    case True
    then show ?thesis by (simp add: addclosure.simps)
  next
    case False
    let ?T = "addclosure_arcs g (nfa_arcs (nfa_node g n)) (insert n S)"
    have T: "addclosure g n S = ?T" using False by (simp add: addclosure.simps)
    from 1 [OF False] have a: "epsilon_arcs g `` {n} \<subseteq> ?T"
      and b: "\<forall>x \<in> ?T - insert n S. epsilon_arcs g `` {x} \<subseteq> ?T"
      by (simp_all add: epsilon_arcs_Image)
    show ?thesis unfolding T using a b by blast
  qed
next
  case (2 g S)
  then show ?case by (simp add: epsilon_targets_def)
next
  case (3 g a rest S)
  show ?case
  proof (cases "nonterminal_or_string a = None")
    case True
    let ?S1 = "addclosure g (arc_next a) S"
    let ?T = "addclosure_arcs g rest ?S1"
    have T: "addclosure_arcs g (a # rest) S = ?T" using True by simp
    have m: "?S1 \<subseteq> ?T" "arc_next a \<in> ?S1"
      by (rule addclosure_mono, rule addclosure_self)
    from 3(1) [OF True] have c1: "\<forall>x \<in> ?S1 - S. epsilon_arcs g `` {x} \<subseteq> ?S1" .
    from 3(2) [OF True] have c2: "epsilon_targets rest \<subseteq> ?T"
      "\<forall>x \<in> ?T - ?S1. epsilon_arcs g `` {x} \<subseteq> ?T" by simp_all
    have "epsilon_targets (a # rest) \<subseteq> insert (arc_next a) (epsilon_targets rest)"
      by (auto simp: epsilon_targets_def)
    with m c2(1) have "epsilon_targets (a # rest) \<subseteq> ?T" by blast
    moreover have "\<forall>x \<in> ?T - S. epsilon_arcs g `` {x} \<subseteq> ?T"
      using c1 c2(2) m(1) by blast
    ultimately show ?thesis unfolding T by simp
  next
    case False
    then have "epsilon_targets (a # rest) = epsilon_targets rest"
      by (auto simp: epsilon_targets_def)
    with 3(3) [OF False] False show ?thesis by auto
  qed
qed

lemma addclosure_empty: "addclosure g n {} = epsilon_closure g n"
proof
  show "addclosure g n {} \<subseteq> epsilon_closure g n"
    using addclosure_sound(1) [of g n "{}"] by (auto simp: epsilon_closure_def)
next
  have closed: "epsilon_arcs g `` {x} \<subseteq> addclosure g n {}" if "x \<in> addclosure g n {}" for x
    using addclosure_closed(1) [of g n "{}"] that by blast
  have "m \<in> addclosure g n {}" if "(n, m) \<in> (epsilon_arcs g)\<^sup>*" for m
    using that
  proof (induction rule: rtrancl_induct)
    case base
    show ?case by (rule addclosure_self)
  next
    case (step y z)
    with closed [of y] show ?case by blast
  qed
  then show "epsilon_closure g n \<subseteq> addclosure g n {}"
    by (auto simp: epsilon_closure_def)
qed

subsection \<open>\<^verbatim>\<open>_make_dfas\<close> raises nothing and keeps its invariants\<close>

lemma nested_state_for_ok:
  assumes "S \<noteq> {}"
  shows "\<exists>states' k. nested_state_for rule finish S states = Inr (states', k)"
  using assms by (auto simp: nested_state_for_def DFAState_init_def split: option.splits)

lemma nested_state_for_prefix:
  assumes "nested_state_for rule finish S states = Inr (states', k)"
  shows "states' = states \<or>
     states' = states @ [\<lparr>from_rule = rule, nfa_set = S, is_final = (finish \<in> S), arcs = [],
                           ilabel_to_plan = [], nonterminal_arcs = []\<rparr>]"
  using assms
  by (auto simp: nested_state_for_def DFAState_init_def split: option.splits if_splits)

lemma AList_update_fresh: "k \<notin> fst ` set al \<Longrightarrow> AList.update k v al = al @ [(k, v)]"
  by (induction al) auto

text \<open>What one run of the body does to the list of states.\<close>

lemma connect_effect:
  assumes "connect rule finish i item states = Inr states'" and "i < length states"
  shows "\<exists>new k. states' = (states @ new)[i := (states ! i)\<lparr>arcs := arcs (states ! i) @ [(fst item, k)]\<rparr>]
     \<and> fst item \<notin> fst ` set (arcs (states ! i))
     \<and> k < length (states @ new) \<and> nfa_set ((states @ new) ! k) = snd item
     \<and> (new = [] \<or> new = [\<lparr>from_rule = rule, nfa_set = snd item, is_final = (finish \<in> snd item),
            arcs = [], ilabel_to_plan = [], nonterminal_arcs = []\<rparr>])"
proof -
  from assms(1) obtain states1 k state where
    n: "nested_state_for rule finish (snd item) states = Inr (states1, k)" and
    a: "add_arc (states1 ! i) k (fst item) = Inr state" and
    s: "states' = states1[i := state]"
    by (auto simp: connect_def split: sum.splits)
  from nested_state_for_prefix [OF n] obtain new where
    new: "states1 = states @ new" "new = [] \<or> new = [\<lparr>from_rule = rule, nfa_set = snd item,
      is_final = (finish \<in> snd item), arcs = [], ilabel_to_plan = [], nonterminal_arcs = []\<rparr>]"
    by auto
  with assms(2) have i: "states1 ! i = states ! i" by (auto simp: nth_append)
  from a have fresh: "fst item \<notin> fst ` set (arcs (states ! i))"
    and st: "state = (states ! i)\<lparr>arcs := AList.update (fst item) k (arcs (states ! i))\<rparr>"
    unfolding i by (auto simp: add_arc_def split: if_splits)
  from fresh have "AList.update (fst item) k (arcs (states ! i)) = arcs (states ! i) @ [(fst item, k)]"
    by (rule AList_update_fresh)
  with st s new nested_state_for_sets [OF n] fresh show ?thesis by auto
qed

lemma connect_ok:
  assumes "snd item \<noteq> {}" and "i < length states"
    and "fst item \<notin> fst ` set (arcs (states ! i))"
  shows "\<exists>states'. connect rule finish i item states = Inr states'"
proof -
  from nested_state_for_ok [OF assms(1)] obtain states1 k where
    n: "nested_state_for rule finish (snd item) states = Inr (states1, k)"
    by blast
  from nested_state_for_prefix [OF n] assms(2) have "states1 ! i = states ! i"
    by (auto simp: nth_append)
  with assms(3) have "\<exists>state. add_arc (states1 ! i) k (fst item) = Inr state"
    by (simp add: add_arc_def)
  with n show ?thesis by (auto simp: connect_def)
qed

lemma connect_state_i:
  assumes "connect rule finish i item states = Inr states'" and "i < length states"
  shows "i < length states' \<and>
     fst ` set (arcs (states' ! i)) = insert (fst item) (fst ` set (arcs (states ! i)))"
  using connect_effect [OF assms] assms(2) by auto

lemma for_each_connect_ok:
  assumes "distinct (map fst items)" and "\<forall>S \<in> snd ` set items. S \<noteq> {}"
    and "i < length states" and "fst ` set (arcs (states ! i)) \<inter> fst ` set items = {}"
  shows "\<exists>states'. for_each (connect rule finish i) items states = Inr states'"
  using assms
proof (induction items arbitrary: states)
  case Nil
  then show ?case by simp
next
  case (Cons item items)
  have "\<exists>states1. connect rule finish i item states = Inr states1"
    using Cons.prems by (intro connect_ok) auto
  then obtain states1 where c: "connect rule finish i item states = Inr states1" ..
  from connect_state_i [OF c Cons.prems(3)] Cons.prems(1,4)
  have "i < length states1" "fst ` set (arcs (states1 ! i)) \<inter> fst ` set items = {}"
    by auto
  with Cons.IH [of states1] Cons.prems(1,2) c show ?case by auto
qed

lemma connect_unexpanded:
  assumes "connect rule finish i item states = Inr states'" and "i < length states"
    and "unexpanded (Suc i) states"
  shows "unexpanded (Suc i) states'"
proof -
  from connect_effect [OF assms(1,2)] obtain new k where
    s: "states' = (states @ new)[i := (states ! i)\<lparr>arcs := arcs (states ! i) @ [(fst item, k)]\<rparr>]"
    and new: "new = [] \<or> new = [\<lparr>from_rule = rule, nfa_set = snd item,
      is_final = (finish \<in> snd item), arcs = [], ilabel_to_plan = [], nonterminal_arcs = []\<rparr>]"
    by blast
  show ?thesis
    unfolding unexpanded_def
  proof (intro allI impI)
    fix j assume j: "Suc i \<le> j \<and> j < length states'"
    then have "states' ! j = (states @ new) ! j" unfolding s by simp
    also have "arcs \<dots> = []"
      using j new assms(3) unfolding s unexpanded_def by (auto simp: nth_append)
    finally show "arcs (states' ! j) = []" .
  qed
qed

lemma expand_state_unexpanded:
  assumes "expand_state ord g rule finish i states = Inr states'" and "i < length states"
    and "unexpanded (Suc i) states"
  shows "unexpanded (Suc i) states'"
proof -
  have "i < length states' \<and> unexpanded (Suc i) states'"
    using assms(1) [unfolded expand_state_def]
  proof (rule for_each_invariant)
    show "i < length states \<and> unexpanded (Suc i) states" using assms by simp
  next
    fix item and s s' :: "'a DFAState list"
    assume "i < length s \<and> unexpanded (Suc i) s" "connect rule finish i item s = Inr s'"
    then show "i < length s' \<and> unexpanded (Suc i) s'"
      using connect_state_i [of rule finish i item s s'] connect_unexpanded [of rule finish i item s s']
      by simp
  qed
  then show ?thesis ..
qed

lemma expand_state_ok:
  assumes "i < length states" and "arcs (states ! i) = []"
  shows "\<exists>states'. expand_state ord g rule finish i states = Inr states'"
  unfolding expand_state_def
  using find_arcs_ok [of g ord "nfa_set (states ! i)"] assms
  by (intro for_each_connect_ok) (auto simp: arcs_ok_def)

lemma make_dfas_loop_returns:
  "unexpanded i states \<Longrightarrow> \<exists>states'. make_dfas_loop ord g rule finish states i = Inr states'"
proof (induction ord g rule finish states i rule: make_dfas_loop.induct)
  case (1 ord g rule finish states i)
  show ?case
  proof (cases "i < length states")
    case False
    then show ?thesis by (simp add: make_dfas_loop.simps [of ord g rule finish states i])
  next
    case True
    with "1.prems" have "arcs (states ! i) = []" "unexpanded (Suc i) states"
      by (auto simp: unexpanded_def)
    from expand_state_ok [OF True this(1)] obtain states1 where
      e: "expand_state ord g rule finish i states = Inr states1" by blast
    from expand_state_unexpanded [OF e True \<open>unexpanded (Suc i) states\<close>]
    have "unexpanded (Suc i) states1" .
    from "1.IH" [OF True e this] True e show ?thesis by (simp add: make_dfas_loop.simps [of ord g rule finish states i])
  qed
qed

lemma make_dfas_loop_invariant:
  assumes "make_dfas_loop ord g rule finish states i = Inr states'" and "P states"
    and "\<And>i item states states'. i < length states \<Longrightarrow> P states \<Longrightarrow>
        connect rule finish i item states = Inr states' \<Longrightarrow> P states'"
  shows "P states'"
  using assms
proof (induction ord g rule finish states i rule: make_dfas_loop.induct)
  case (1 ord g rule finish states i)
  show ?case
  proof (cases "i < length states")
    case False
    with "1.prems" show ?thesis by (simp add: make_dfas_loop.simps [of ord g rule finish states i])
  next
    case True
    with "1.prems"(1) obtain states1 where
      e: "expand_state ord g rule finish i states = Inr states1" and
      r: "make_dfas_loop ord g rule finish states1 (Suc i) = Inr states'"
      by (auto simp: make_dfas_loop.simps [of ord g rule finish states i] split: sum.splits)
    have "i < length states1 \<and> P states1"
      using e [unfolded expand_state_def]
    proof (rule for_each_invariant)
      show "i < length states \<and> P states" using True "1.prems"(2) by simp
    next
      fix item and s s' :: "'a DFAState list"
      assume a: "i < length s \<and> P s" and c: "connect rule finish i item s = Inr s'"
      from a have l: "i < length s" and p: "P s" by simp_all
      from connect_state_i [OF c l] have "i < length s'" ..
      moreover from l p c have "P s'" by (rule "1.prems"(3))
      ultimately show "i < length s' \<and> P s'" ..
    qed
    then have "P states1" ..
    with "1.IH" [OF True e r] "1.prems"(3) show ?thesis by blast
  qed
qed

lemma make_dfas_returns:
  "\<exists>states. make_dfas ord g start finish = Inr states"
proof -
  have "addclosure g start {} \<noteq> {}" using addclosure_self [of start g "{}"] by auto
  then obtain state :: "'a DFAState" where
    i: "DFAState_init (nfa_from_rule (nfa_node g start)) (addclosure g start {}) finish = Inr state"
    and a: "arcs state = []"
    by (auto simp: DFAState_init_def)
  from a have "unexpanded 0 [state]" by (simp add: unexpanded_def)
  from make_dfas_loop_returns [OF this] i show ?thesis
    by (simp add: make_dfas_def Let_def)
qed

lemma make_dfas_invariant:
  assumes "make_dfas ord g start finish = Inr states"
    and "\<And>state. nfa_set state = addclosure g start {} \<Longrightarrow> arcs state = [] \<Longrightarrow>
        is_final state = (finish \<in> nfa_set state) \<Longrightarrow> ilabel_to_plan state = [] \<Longrightarrow>
        nonterminal_arcs state = [] \<Longrightarrow> P [state]"
    and "\<And>i item states states'. i < length states \<Longrightarrow> P states \<Longrightarrow>
        connect (nfa_from_rule (nfa_node g start)) finish i item states = Inr states' \<Longrightarrow> P states'"
  shows "P states"
proof -
  from assms(1) obtain state where
    i: "DFAState_init (nfa_from_rule (nfa_node g start)) (addclosure g start {}) finish = Inr state"
    and l: "make_dfas_loop ord g (nfa_from_rule (nfa_node g start)) finish [state] 0 = Inr states"
    by (auto simp: make_dfas_def Let_def split: sum.splits)
  from i have "P [state]"
    by (intro assms(2)) (auto simp: DFAState_init_def split: if_splits)
  with l show ?thesis by (rule make_dfas_loop_invariant) (rule assms(3))
qed

subsection \<open>The states of the powerset construction\<close>

text \<open>
  C1: \<^verbatim>\<open>_make_dfas\<close> returns a list of states that is not empty; the set of NFA nodes
  of its first state is the epsilon closure of \<open>start\<close>; and no two states of the list
  have the same set of NFA nodes.
\<close>

theorem make_dfas_first_state:
  "\<exists>states :: 'tok DFAState list. make_dfas ord g start finish = Inr states \<and> states \<noteq> [] \<and>
     nfa_set (hd states) = epsilon_closure g start \<and> distinct (map nfa_set states)"
proof -
  obtain states :: "'tok DFAState list" where m: "make_dfas ord g start finish = Inr states"
    using make_dfas_returns by blast
  have "states \<noteq> [] \<and> nfa_set (hd states) = addclosure g start {} \<and> distinct (map nfa_set states)"
    using m
  proof (rule make_dfas_invariant)
    fix state :: "'tok DFAState"
    assume "nfa_set state = addclosure g start {}"
    then show "[state] \<noteq> [] \<and> nfa_set (hd [state]) = addclosure g start {} \<and>
        distinct (map nfa_set [state])"
      by simp
  next
    fix i item and states states' :: "'tok DFAState list"
    assume i: "i < length states"
      and P: "states \<noteq> [] \<and> nfa_set (hd states) = addclosure g start {} \<and>
        distinct (map nfa_set states)"
      and c: "connect (nfa_from_rule (nfa_node g start)) finish i item states = Inr states'"
    from connect_sets [OF c i]
    have "\<exists>news. map nfa_set states' = map nfa_set states @ news \<and> distinct (map nfa_set states @ news)"
      using P by auto
    then obtain news where n: "map nfa_set states' = map nfa_set states @ news"
      and d: "distinct (map nfa_set states @ news)" by blast
    from n P have "states' \<noteq> []" by auto
    moreover from n P have "hd (map nfa_set states') = hd (map nfa_set states)" by simp
    then have "nfa_set (hd states') = nfa_set (hd states)"
      using P \<open>states' \<noteq> []\<close> by (simp add: hd_map)
    ultimately show "states' \<noteq> [] \<and> nfa_set (hd states') = addclosure g start {} \<and>
        distinct (map nfa_set states')"
      using P d n by simp
  qed
  with m show ?thesis by (auto simp: addclosure_empty)
qed

theorem make_dfas_first_state_witness:
  "make_dfas sorted_list_of_set nfa_a_or_b 0 1 = Inr states_a_or_b \<and>
   epsilon_closure nfa_a_or_b 0 = {0, 2} \<and> distinct (map nfa_set states_a_or_b)"
proof -
  have ev: "make_dfas sorted_list_of_set nfa_a_or_b 0 1 = Inr states_a_or_b"
    by code_simp
  from make_dfas_first_state [of sorted_list_of_set nfa_a_or_b 0 1, where 'tok = nat] ev
  have "nfa_set (hd states_a_or_b) = epsilon_closure nfa_a_or_b 0 \<and>
      distinct (map nfa_set states_a_or_b)"
    by simp
  moreover have "nfa_set (hd states_a_or_b) = {0, 2}" by (simp add: states_a_or_b_def)
  ultimately show ?thesis using ev by simp
qed

subsection \<open>Finality\<close>

lemma fold_update_map:
  assumes "\<And>s. q (f s) = q s"
  shows "map q (fold (\<lambda>a h. h[a := f (h ! a)]) as h) = map q h"
proof (induction as arbitrary: h)
  case Nil
  then show ?case by simp
next
  case (Cons a as)
  have "map q (h[a := f (h ! a)]) = map q h"
    by (cases "a < length h") (simp_all add: map_update assms list_update_same_conv list_update_beyond)
  with Cons.IH [of "h[a := f (h ! a)]"] show ?case by simp
qed

lemma unify_keeps:
  assumes "unify h dfas i j = (h', dfas')"
  shows "dfas' = take j dfas @ drop (Suc j) dfas"
    and "length h' = length h"
    and "map is_final h' = map is_final h"
    and "map nfa_set h' = map nfa_set h"
proof -
  let ?f = "\<lambda>s :: 'a DFAState. unifystate s (dfas ! j) (dfas ! i)"
  from assms have d: "dfas' = take j dfas @ drop (Suc j) dfas"
    and h': "h' = fold (\<lambda>a h. h[a := ?f (h ! a)]) dfas' h"
    by (auto simp: unify_def Let_def)
  show "dfas' = take j dfas @ drop (Suc j) dfas" by (rule d)
  show "map is_final h' = map is_final h"
    unfolding h' by (rule fold_update_map) (simp add: unifystate_def)
  then show "length h' = length h" by (rule map_eq_imp_length_eq)
  show "map nfa_set h' = map nfa_set h"
    unfolding h' by (rule fold_update_map) (simp add: unifystate_def)
qed

lemma simplify_pass_invariant:
  assumes "simplify_pass h dfas i c = (h', dfas', c')" and "P h dfas"
    and "\<And>h dfas i j h1 dfas1. P h dfas \<Longrightarrow> first_equal h dfas i = Some j \<Longrightarrow>
        unify h dfas i j = (h1, dfas1) \<Longrightarrow> P h1 dfas1"
  shows "P h' dfas'"
  using assms
proof (induction h dfas i c rule: simplify_pass.induct)
  case (1 h dfas i c)
  show ?case
  proof (cases "i < length dfas")
    case False
    with "1.prems"(1,2) show ?thesis by (simp add: simplify_pass.simps [of h dfas i])
  next
    case True
    show ?thesis
    proof (cases "first_equal h dfas i")
      case None
      with True "1.prems"(1) have "simplify_pass h dfas (Suc i) c = (h', dfas', c')"
        by (simp add: simplify_pass.simps [of h dfas i])
      from "1.IH"(1) [OF True None this "1.prems"(2)] "1.prems"(3) show ?thesis by blast
    next
      case (Some j)
      obtain h1 dfas1 where u: "unify h dfas i j = (h1, dfas1)" by force
      with True Some "1.prems"(1) have r: "simplify_pass h1 dfas1 (Suc i) True = (h', dfas', c')"
        by (simp add: simplify_pass.simps [of h dfas i])
      have "P h1 dfas1" using "1.prems"(2) Some u by (rule "1.prems"(3))
      from "1.IH"(2) [OF True Some u [symmetric] r this] "1.prems"(3) show ?thesis by blast
    qed
  qed
qed

lemma simplify_dfas_invariant:
  assumes "simplify_dfas h dfas = (h', dfas')" and "P h dfas"
    and "\<And>h dfas i j h1 dfas1. P h dfas \<Longrightarrow> first_equal h dfas i = Some j \<Longrightarrow>
        unify h dfas i j = (h1, dfas1) \<Longrightarrow> P h1 dfas1"
  shows "P h' dfas'"
  using assms
proof (induction h dfas rule: simplify_dfas.induct)
  case (1 h dfas)
  obtain h1 dfas1 c where p: "simplify_pass h dfas 0 False = (h1, dfas1, c)"
    by (metis prod_cases3)
  have P1: "P h1 dfas1"
    using p "1.prems"(2) by (rule simplify_pass_invariant) (rule "1.prems"(3))
  show ?case
  proof (cases c)
    case True
    with p "1.prems"(1) have "simplify_dfas h1 dfas1 = (h', dfas')"
      by (simp add: simplify_dfas.simps [of h dfas])
    from "1.IH" [OF p [symmetric] refl True this P1] "1.prems"(3) show ?thesis by blast
  next
    case False
    with p "1.prems"(1) P1 show ?thesis by (simp add: simplify_dfas.simps [of h dfas])
  qed
qed

lemma simplify_dfas_keeps:
  assumes "simplify_dfas h dfas = (h', dfas')"
  shows "map is_final h' = map is_final h \<and> map nfa_set h' = map nfa_set h \<and> set dfas' \<subseteq> set dfas"
  using assms
proof (rule simplify_dfas_invariant
    [where P = "\<lambda>h1 dfas1. map is_final h1 = map is_final h \<and> map nfa_set h1 = map nfa_set h \<and>
       set dfas1 \<subseteq> set dfas"])
  fix h0 h1 :: "'a DFAState list" and dfas0 dfas1 i j
  assume P: "map is_final h0 = map is_final h \<and> map nfa_set h0 = map nfa_set h \<and> set dfas0 \<subseteq> set dfas"
    and u: "unify h0 dfas0 i j = (h1, dfas1)"
  have "set dfas1 \<subseteq> set dfas0"
    unfolding unify_keeps(1) [OF u] using set_take_subset [of j dfas0] set_drop_subset [of "Suc j" dfas0]
    by auto
  with P unify_keeps(3,4) [OF u]
  show "map is_final h1 = map is_final h \<and> map nfa_set h1 = map nfa_set h \<and> set dfas1 \<subseteq> set dfas"
    by auto
qed simp

lemma first_equal_is_final:
  "first_equal h dfas i = Some j \<Longrightarrow> is_final (h ! (dfas ! i)) = is_final (h ! (dfas ! j))"
  unfolding first_equal_def by (auto simp: find_Some_iff DFAState_eq_def split: if_splits)

lemma make_dfas_finality:
  assumes "make_dfas ord g start finish = Inr states"
  shows "\<forall>s \<in> set states. is_final s = (finish \<in> nfa_set s)"
  using assms
proof (rule make_dfas_invariant)
  fix i item and states states' :: "'a DFAState list"
  assume i: "i < length states" and P: "\<forall>s \<in> set states. is_final s = (finish \<in> nfa_set s)"
    and c: "connect (nfa_from_rule (nfa_node g start)) finish i item states = Inr states'"
  from connect_effect [OF c i] obtain new k where
    s: "states' = (states @ new)[i := (states ! i)\<lparr>arcs := arcs (states ! i) @ [(fst item, k)]\<rparr>]"
    and new: "new = [] \<or> new = [\<lparr>from_rule = nfa_from_rule (nfa_node g start), nfa_set = snd item,
      is_final = (finish \<in> snd item), arcs = [], ilabel_to_plan = [], nonterminal_arcs = []\<rparr>]"
    by blast
  have "set states' \<subseteq> insert ((states ! i)\<lparr>arcs := arcs (states ! i) @ [(fst item, k)]\<rparr>) (set (states @ new))"
    unfolding s by (rule set_update_subset_insert)
  moreover have "states ! i \<in> set states" using i by simp
  ultimately show "\<forall>s \<in> set states'. is_final s = (finish \<in> nfa_set s)"
    using P new by auto
qed simp

text \<open>
  C3: a state that \<^verbatim>\<open>_make_dfas\<close> has built is final exactly if \<open>finish\<close> is one of
  its NFA nodes, and so is every state that is left in the list after \<^verbatim>\<open>_simplify_dfas\<close>,
  whose finality is the one it was built with; two states that are merged have the same
  finality.
\<close>

theorem is_final_iff_finish:
  fixes states h :: "'tok DFAState list"
  assumes "make_dfas ord g start finish = Inr states"
    and "simplify_dfas states [0..<length states] = (h, dfas)"
  shows "(\<forall>s \<in> set states. is_final s \<longleftrightarrow> finish \<in> nfa_set s) \<and>
    (\<forall>a \<in> set dfas. a < length h \<and> (is_final (h ! a) \<longleftrightarrow> finish \<in> nfa_set (h ! a)) \<and>
        is_final (h ! a) = is_final (states ! a)) \<and>
    (\<forall>(h' :: 'tok DFAState list) dfas' i j. first_equal h' dfas' i = Some j \<longrightarrow>
        is_final (h' ! (dfas' ! i)) = is_final (h' ! (dfas' ! j)))"
proof (intro conjI)
  show fresh: "\<forall>s \<in> set states. is_final s \<longleftrightarrow> finish \<in> nfa_set s"
    using assms(1) by (rule make_dfas_finality)
  from simplify_dfas_keeps [OF assms(2)]
  have k: "map is_final h = map is_final states" "map nfa_set h = map nfa_set states"
    "set dfas \<subseteq> {..<length states}"
    by auto
  from k(1) have len: "length h = length states" by (rule map_eq_imp_length_eq)
  show "\<forall>a \<in> set dfas. a < length h \<and> (is_final (h ! a) \<longleftrightarrow> finish \<in> nfa_set (h ! a)) \<and>
        is_final (h ! a) = is_final (states ! a)"
  proof
    fix a assume "a \<in> set dfas"
    with k(3) len have a: "a < length h" "a < length states" by auto
    from a k(1) have "is_final (h ! a) = is_final (states ! a)"
      by (metis nth_map)
    moreover from a k(2) have "nfa_set (h ! a) = nfa_set (states ! a)"
      by (metis nth_map)
    moreover from a(2) fresh have "is_final (states ! a) \<longleftrightarrow> finish \<in> nfa_set (states ! a)"
      by simp
    ultimately show "a < length h \<and> (is_final (h ! a) \<longleftrightarrow> finish \<in> nfa_set (h ! a)) \<and>
        is_final (h ! a) = is_final (states ! a)"
      using a(1) by simp
  qed
  show "\<forall>(h' :: 'tok DFAState list) dfas' i j. first_equal h' dfas' i = Some j \<longrightarrow>
        is_final (h' ! (dfas' ! i)) = is_final (h' ! (dfas' ! j))"
    by (auto dest: first_equal_is_final)
qed

theorem is_final_iff_finish_witness:
  "make_dfas sorted_list_of_set nfa_merge 0 3 = Inr states_merge \<and>
   simplify_dfas states_merge [0..<length states_merge] = (states_merged, [0, 1, 3]) \<and>
   (is_final (states_merged ! 1) \<longleftrightarrow> 3 \<in> nfa_set (states_merged ! 1)) \<and>
   (is_final (states_merged ! 3) \<longleftrightarrow> 3 \<in> nfa_set (states_merged ! 3)) \<and>
   is_final (states_merged ! 3) = is_final (states_merge ! 3)"
proof -
  have m: "make_dfas sorted_list_of_set nfa_merge 0 3 = Inr states_merge"
    by code_simp
  have s: "simplify_dfas states_merge [0..<length states_merge] = (states_merged, [0, 1, 3])"
    by code_simp
  from is_final_iff_finish [OF m s] have
    "\<forall>a \<in> set [0, 1, 3]. a < length states_merged \<and>
       (is_final (states_merged ! a) \<longleftrightarrow> 3 \<in> nfa_set (states_merged ! a)) \<and>
       is_final (states_merged ! a) = is_final (states_merge ! a)"
    by (rule conjunct2 [THEN conjunct1])
  moreover have "1 \<in> set [0, 1, 3 :: nat]" "3 \<in> set [0, 1, 3 :: nat]" by simp_all
  ultimately have "(is_final (states_merged ! 1) \<longleftrightarrow> 3 \<in> nfa_set (states_merged ! 1)) \<and>
      (is_final (states_merged ! 3) \<longleftrightarrow> 3 \<in> nfa_set (states_merged ! 3)) \<and>
      is_final (states_merged ! 3) = is_final (states_merge ! 3)"
    by blast
  with m s show ?thesis by blast
qed

subsection \<open>The labels of a state\<close>

lemma make_dfas_labels:
  assumes "make_dfas ord g start finish = Inr states"
  shows "\<forall>s \<in> set states. distinct (map fst (arcs s))"
  using assms
proof (rule make_dfas_invariant)
  fix i item and states states' :: "'a DFAState list"
  assume i: "i < length states" and P: "\<forall>s \<in> set states. distinct (map fst (arcs s))"
    and c: "connect (nfa_from_rule (nfa_node g start)) finish i item states = Inr states'"
  from connect_effect [OF c i] obtain new k where
    s: "states' = (states @ new)[i := (states ! i)\<lparr>arcs := arcs (states ! i) @ [(fst item, k)]\<rparr>]"
    and fresh: "fst item \<notin> fst ` set (arcs (states ! i))"
    and new: "new = [] \<or> new = [\<lparr>from_rule = nfa_from_rule (nfa_node g start), nfa_set = snd item,
      is_final = (finish \<in> snd item), arcs = [], ilabel_to_plan = [], nonterminal_arcs = []\<rparr>]"
    by blast
  have "set states' \<subseteq> insert ((states ! i)\<lparr>arcs := arcs (states ! i) @ [(fst item, k)]\<rparr>) (set (states @ new))"
    unfolding s by (rule set_update_subset_insert)
  moreover have "states ! i \<in> set states" using i by simp
  ultimately show "\<forall>s \<in> set states'. distinct (map fst (arcs s))"
    using P new fresh by auto
qed simp

text \<open>
  C6: \<^verbatim>\<open>_make_dfas\<close> raises nothing, so the assertion of \<^verbatim>\<open>add_arc\<close> holds each
  time it is reached, and the labels of the arcs of every state it returns are pairwise
  distinct.
\<close>

theorem make_dfas_deterministic:
  "\<exists>states :: 'tok DFAState list. make_dfas ord g start finish = Inr states \<and>
     (\<forall>s \<in> set states. distinct (map fst (arcs s)))"
proof -
  obtain states :: "'tok DFAState list" where m: "make_dfas ord g start finish = Inr states"
    using make_dfas_returns by blast
  from m make_dfas_labels [OF m] show ?thesis by blast
qed

theorem make_dfas_deterministic_witness:
  "make_dfas sorted_list_of_set nfa_merge 0 3 = Inr states_merge \<and>
   distinct (map fst (arcs (states_merge ! 0))) \<and> map fst (arcs (states_merge ! 0)) = [''NAME'', ''NUMBER'']"
proof -
  have m: "make_dfas sorted_list_of_set nfa_merge 0 3 = Inr states_merge"
    by code_simp
  with make_dfas_deterministic [of sorted_list_of_set nfa_merge 0 3, where 'tok = nat]
  have "\<forall>s \<in> set states_merge. distinct (map fst (arcs s))" by simp
  then have "distinct (map fst (arcs (states_merge ! 0)))" by (simp add: states_merge_def)
  with m show ?thesis by (simp add: states_merge_def)
qed

subsection \<open>A second run of the minimizer\<close>

lemma simplify_pass_changed:
  "simplify_pass h dfas i True = (h', dfas', c') \<Longrightarrow> c'"
proof (induction h dfas i "True" arbitrary: h' dfas' c' rule: simplify_pass.induct)
  case (1 h dfas i)
  show ?case
  proof (cases "i < length dfas")
    case False
    with "1.prems" show ?thesis by (simp add: simplify_pass.simps [of h dfas i])
  next
    case True
    show ?thesis
    proof (cases "first_equal h dfas i")
      case None
      with True "1.prems" "1.hyps"(1) show ?thesis
        by (simp add: simplify_pass.simps [of h dfas i])
    next
      case (Some j)
      obtain h1 dfas1 where u: "unify h dfas i j = (h1, dfas1)" by force
      with True Some "1.prems" have "simplify_pass h1 dfas1 (Suc i) True = (h', dfas', c')"
        by (simp add: simplify_pass.simps [of h dfas i])
      with "1.hyps"(2) [OF True Some u [symmetric]] show ?thesis by simp
    qed
  qed
qed

lemma simplify_pass_unchanged:
  "simplify_pass h dfas i c = (h', dfas', False) \<Longrightarrow>
   h' = h \<and> dfas' = dfas \<and> \<not> c \<and> (\<forall>k. i \<le> k \<longrightarrow> first_equal h dfas k = None)"
proof (induction h dfas i c rule: simplify_pass.induct)
  case (1 h dfas i c)
  show ?case
  proof (cases "i < length dfas")
    case False
    then have "first_equal h dfas k = None" if "i \<le> k" for k
      using that by (simp add: first_equal_def)
    with False "1.prems" show ?thesis by (simp add: simplify_pass.simps [of h dfas i])
  next
    case True
    show ?thesis
    proof (cases "first_equal h dfas i")
      case None
      with True "1.prems" have "simplify_pass h dfas (Suc i) c = (h', dfas', False)"
        by (simp add: simplify_pass.simps [of h dfas i])
      from "1.IH"(1) [OF True None this]
      have *: "h' = h \<and> dfas' = dfas \<and> \<not> c \<and> (\<forall>k. Suc i \<le> k \<longrightarrow> first_equal h dfas k = None)" .
      have "first_equal h dfas k = None" if "i \<le> k" for k
        using that * None by (cases "k = i") auto
      with * show ?thesis by simp
    next
      case (Some j)
      obtain h1 dfas1 where u: "unify h dfas i j = (h1, dfas1)" by force
      with True Some "1.prems" have "simplify_pass h1 dfas1 (Suc i) True = (h', dfas', False)"
        by (simp add: simplify_pass.simps [of h dfas i])
      from simplify_pass_changed [OF this] show ?thesis by simp
    qed
  qed
qed

lemma simplify_dfas_fixpoint:
  "simplify_dfas h dfas = (h', dfas') \<Longrightarrow> simplify_pass h' dfas' 0 False = (h', dfas', False)"
proof (induction h dfas rule: simplify_dfas.induct)
  case (1 h dfas)
  obtain h1 dfas1 c where p: "simplify_pass h dfas 0 False = (h1, dfas1, c)"
    by (metis prod_cases3)
  show ?case
  proof (cases c)
    case True
    with p "1.prems" have "simplify_dfas h1 dfas1 = (h', dfas')"
      by (simp add: simplify_dfas.simps [of h dfas])
    from "1.IH" [OF p [symmetric] refl True this] show ?thesis .
  next
    case False
    with p "1.prems" have e: "h' = h1" "dfas' = dfas1"
      by (simp_all add: simplify_dfas.simps [of h dfas])
    from p False simplify_pass_unchanged [of h dfas 0 False h1 dfas1] have "h1 = h" "dfas1 = dfas"
      by simp_all
    with p False e show ?thesis by simp
  qed
qed

text \<open>
  C8: on the result of \<^verbatim>\<open>_simplify_dfas\<close> one more pass merges nothing, because no
  state of the list is equal to a later one, and a second run of \<^verbatim>\<open>_simplify_dfas\<close>
  returns the same store and the same list.
\<close>

theorem simplify_dfas_idempotent:
  assumes "simplify_dfas h dfas = (h', dfas')"
  shows "simplify_pass h' dfas' 0 False = (h', dfas', False) \<and>
    (\<forall>i. first_equal h' dfas' i = None) \<and>
    simplify_dfas h' dfas' = (h', dfas')"
proof -
  from assms have p: "simplify_pass h' dfas' 0 False = (h', dfas', False)"
    by (rule simplify_dfas_fixpoint)
  from simplify_pass_unchanged [OF p] have "\<forall>i. first_equal h' dfas' i = None" by simp
  moreover from p have "simplify_dfas h' dfas' = (h', dfas')"
    by (simp add: simplify_dfas.simps [of h' dfas'])
  ultimately show ?thesis using p by simp
qed

theorem simplify_dfas_idempotent_witness:
  "simplify_dfas states_merge [0, 1, 2, 3] = (states_merged, [0, 1, 3]) \<and>
   simplify_pass states_merged [0, 1, 3] 0 False = (states_merged, [0, 1, 3], False) \<and>
   first_equal states_merged [0, 1, 3] 0 = None \<and>
   simplify_dfas states_merged [0, 1, 3] = (states_merged, [0, 1, 3])"
proof -
  have s: "simplify_dfas states_merge [0, 1, 2, 3] = (states_merged, [0, 1, 3])"
    by code_simp
  from simplify_dfas_idempotent [OF s] s show ?thesis by simp
qed

subsection \<open>Termination\<close>

text \<open>
  C5: the recursion of \<^verbatim>\<open>addclosure\<close>, the loop of \<^verbatim>\<open>_make_dfas\<close> and the two loops
  of \<^verbatim>\<open>_simplify_dfas\<close> are well-founded on every input, whatever cycles the NFA or the
  DFA has, and \<^verbatim>\<open>_make_dfas\<close> returns a list of states for every fragment. (The
  domain predicate of a function holds for the arguments on which its recursion ends.)
\<close>

theorem compilation_terminates:
  "addclosure_addclosure_arcs_dom (Inl (g, n, S)) \<and>
   addclosure_addclosure_arcs_dom (Inr (g, as, S)) \<and>
   make_dfas_loop_dom (ord, g, rule, finish, states :: 'tok DFAState list, i) \<and>
   (\<exists>r :: 'tok DFAState list. make_dfas ord g start finish = Inr r) \<and>
   simplify_pass_dom (h :: 'tok DFAState list, dfas, i, changes) \<and>
   simplify_dfas_dom (h, dfas)"
  using addclosure_terminates make_dfas_loop_terminates simplify_pass_terminates
    simplify_dfas_terminates make_dfas_returns
  by blast

theorem compilation_terminates_witness:
  "addclosure_addclosure_arcs_dom (Inl (nfa_loop, 0, {})) \<and>
   addclosure nfa_loop 0 {} = {0} \<and>
   addclosure nfa_loop 1 {} = {0, 1} \<and>
   make_dfas_loop_dom (sorted_list_of_set, nfa_loop, ''item'', 1, [] :: nat DFAState list, 0) \<and>
   make_dfas sorted_list_of_set nfa_loop 0 1 = Inr states_loop"
proof -
  have "addclosure nfa_loop 0 {} = {0}" "addclosure nfa_loop 1 {} = {0, 1}"
    by code_simp+
  moreover have "make_dfas sorted_list_of_set nfa_loop 0 1 = Inr states_loop"
    by code_simp
  ultimately show ?thesis
    using compilation_terminates [where g = nfa_loop and n = 0 and S = "{}"
        and ord = sorted_list_of_set and rule = "''item''" and finish = 1
        and states = "[] :: nat DFAState list" and i = 0]
    by simp
qed

subsection \<open>Merging\<close>

lemma alist_eqI:
  assumes "map fst xs = map fst ys" and "distinct (map fst xs)" and "map_of xs = map_of ys"
  shows "xs = ys"
proof -
  from assms(1) have "length xs = length ys" by (rule map_eq_imp_length_eq)
  then show ?thesis using assms
  proof (induction xs ys rule: list_induct2)
    case Nil
    then show ?case by simp
  next
    case (Cons x xs y ys)
    obtain k v k' v' where x: "x = (k, v)" and y: "y = (k', v')" by force
    from Cons.prems(1) x y have k: "k' = k" and ks: "map fst xs = map fst ys" by simp_all
    from fun_cong [OF Cons.prems(3), of k] x y k have v: "v' = v" by simp
    from Cons.prems(2) x ks have notin: "k \<notin> fst ` set xs" "k \<notin> fst ` set ys"
      by (auto simp flip: set_map)
    have "map_of xs l = map_of ys l" for l
    proof (cases "l = k")
      case True
      from notin have "map_of xs k = None" "map_of ys k = None"
        by (simp_all add: map_of_eq_None_iff)
      with True show ?thesis by simp
    next
      case False
      with fun_cong [OF Cons.prems(3), of l] x y k show ?thesis by simp
    qed
    then have "map_of xs = map_of ys" by (rule ext)
    with Cons.IH ks Cons.prems(2) have "xs = ys" by simp
    with x y k v show ?case by simp
  qed
qed

lemma map_of_unify_fold:
  "map_of (fold (\<lambda>(label, nxt) d. if nxt = old then AList.update label new d else d) xs d) l =
     (if (l, old) \<in> set xs then Some new else map_of d l)"
proof (induction xs arbitrary: d)
  case Nil
  then show ?case by simp
next
  case (Cons x xs)
  obtain k t where x: "x = (k, t)" by force
  show ?case
  proof (cases "t = old")
    case True
    with x Cons.IH [of "AList.update k new d"] show ?thesis
      by (simp add: update_conv')
  next
    case False
    with x Cons.IH [of d] show ?thesis by simp
  qed
qed

lemma keys_unify_fold:
  "fst ` set xs \<subseteq> fst ` set d \<Longrightarrow>
   map fst (fold (\<lambda>(label, nxt) d. if nxt = old then AList.update label new d else d) xs d) = map fst d"
proof (induction xs arbitrary: d)
  case Nil
  then show ?case by simp
next
  case (Cons x xs)
  obtain l t where x: "x = (l, t)" by force
  with Cons.prems have "l \<in> fst ` set d" by auto
  then have "map fst (AList.update l new d) = map fst d" by (simp add: update_keys)
  with Cons.IH [of "AList.update l new d"] Cons.IH [of d] Cons.prems x show ?case
    by (auto simp flip: set_map)
qed

lemma unifystate_arcs:
  assumes "distinct (map fst (arcs s))"
  shows "arcs (unifystate s old new) = map (\<lambda>(l, t). (l, if t = old then new else t)) (arcs s)"
proof (rule alist_eqI)
  let ?r = "fold (\<lambda>(label, nxt) d. if nxt = old then AList.update label new d else d) (arcs s) (arcs s)"
  have a: "arcs (unifystate s old new) = ?r" by (simp add: unifystate_def)
  have k: "map fst ?r = map fst (arcs s)" by (rule keys_unify_fold) simp
  show "map fst (arcs (unifystate s old new)) =
      map fst (map (\<lambda>(l, t). (l, if t = old then new else t)) (arcs s))"
    unfolding a k by (simp add: comp_def case_prod_unfold)
  show "distinct (map fst (arcs (unifystate s old new)))"
    unfolding a k by (rule assms)
  show "map_of (arcs (unifystate s old new)) =
      map_of (map (\<lambda>(l, t). (l, if t = old then new else t)) (arcs s))"
  proof
    fix l
    have "map_of (map (\<lambda>(l, t). (l, if t = old then new else t)) (arcs s)) l =
        map_option (\<lambda>t. if t = old then new else t) (map_of (arcs s) l)"
      using map_of_map [of "\<lambda>t. if t = old then new else t" "arcs s"] by simp
    moreover have "(l, old) \<in> set (arcs s) \<longleftrightarrow> map_of (arcs s) l = Some old"
      using assms by (auto dest: map_of_SomeD)
    ultimately show "map_of (arcs (unifystate s old new)) l =
        map_of (map (\<lambda>(l, t). (l, if t = old then new else t)) (arcs s)) l"
      unfolding a map_of_unify_fold by (cases "map_of (arcs s) l") auto
  qed
qed

lemma fold_update_nth:
  assumes "b < length h" and "f (f s) = f s" and "h ! b = s \<or> h ! b = f s"
  shows "fold (\<lambda>a h. h[a := f (h ! a)]) as h ! b = (if b \<in> set as then f s else h ! b)"
  using assms(1,3)
proof (induction as arbitrary: h)
  case Nil
  then show ?case by simp
next
  case (Cons a as)
  let ?h = "h[a := f (h ! a)]"
  have len: "b < length ?h" using Cons.prems(1) by simp
  show ?case
  proof (cases "a = b")
    case True
    with Cons.prems assms(2) have "?h ! b = f s" by auto
    with Cons.IH [OF len] True show ?thesis by simp
  next
    case False
    then have "?h ! b = h ! b" by simp
    with Cons.IH [OF len] Cons.prems(2) False show ?thesis by simp
  qed
qed

lemma unifystate_idem:
  assumes "distinct (map fst (arcs s))"
  shows "unifystate (unifystate s old new) old new = unifystate s old new"
proof -
  let ?r = "\<lambda>(l :: string, t). (l, if t = old then new else t)"
  have k: "map fst (map ?r (arcs s)) = map fst (arcs s)"
    by (simp add: comp_def case_prod_unfold)
  have a1: "arcs (unifystate s old new) = map ?r (arcs s)"
    using assms by (rule unifystate_arcs)
  have "arcs (unifystate (unifystate s old new) old new) = map ?r (arcs (unifystate s old new))"
    by (rule unifystate_arcs) (simp only: a1 k assms)
  also have "\<dots> = map ?r (arcs s)"
    unfolding a1 by (auto simp: case_prod_unfold)
  finally have "arcs (unifystate (unifystate s old new) old new) = arcs (unifystate s old new)"
    using a1 by simp
  then show ?thesis by (simp add: unifystate_def)
qed

lemma unify_arcs:
  assumes "unify h dfas i j = (h', dfas')" and "a \<in> set dfas'" and "a < length h"
    and "distinct (map fst (arcs (h ! a)))"
  shows "arcs (h' ! a) = map (\<lambda>(l, t). (l, if t = dfas ! j then dfas ! i else t)) (arcs (h ! a))"
proof -
  let ?f = "\<lambda>s :: 'a DFAState. unifystate s (dfas ! j) (dfas ! i)"
  from assms(1) have h': "h' = fold (\<lambda>a h. h[a := ?f (h ! a)]) dfas' h"
    by (auto simp: unify_def Let_def)
  have "h' ! a = ?f (h ! a)"
    unfolding h'
    using fold_update_nth [of a h ?f "h ! a" dfas'] assms(2,3) unifystate_idem [OF assms(4)]
    by simp
  with unifystate_arcs [OF assms(4)] show ?thesis by simp
qed

lemma subseq_remove_nth: "subseq (take j xs @ drop (Suc j) xs) xs"
proof (cases "j < length xs")
  case True
  then have "xs = take j xs @ xs ! j # drop (Suc j) xs" by (rule id_take_nth_drop)
  moreover have "subseq (take j xs @ drop (Suc j) xs) (take j xs @ xs ! j # drop (Suc j) xs)"
    by (simp add: subseq_append' list_emb_Cons)
  ultimately show ?thesis by simp
next
  case False
  then show ?thesis by simp
qed

lemma simplify_dfas_subseq:
  assumes "simplify_dfas h dfas = (h', dfas')"
  shows "subseq dfas' dfas"
  using assms
proof (rule simplify_dfas_invariant [where P = "\<lambda>h1 dfas1. subseq dfas1 dfas"])
  fix h0 h1 :: "'a DFAState list" and dfas0 dfas1 i j
  assume "subseq dfas0 dfas" "unify h0 dfas0 i j = (h1, dfas1)"
  with subseq_remove_nth [of j dfas0] unify_keeps(1) [of h0 dfas0 i j h1 dfas1]
  show "subseq dfas1 dfas" by (auto intro: subseq_order.trans)
qed simp

lemma first_equal_None_iff:
  "first_equal h dfas i = None \<longleftrightarrow>
     (\<forall>j. i < j \<and> j < length dfas \<longrightarrow> \<not> DFAState_eq (h ! (dfas ! i)) (h ! (dfas ! j)))"
  unfolding first_equal_def by (auto simp: find_None_iff)

lemma first_equal_first:
  assumes "first_equal h dfas i = Some j"
  shows "i < j \<and> j < length dfas \<and> DFAState_eq (h ! (dfas ! i)) (h ! (dfas ! j)) \<and>
    (\<forall>k. i < k \<and> k < j \<longrightarrow> \<not> DFAState_eq (h ! (dfas ! i)) (h ! (dfas ! k)))"
proof -
  from assms obtain n where n: "n < length [Suc i..<length dfas]"
    "DFAState_eq (h ! (dfas ! i)) (h ! (dfas ! ([Suc i..<length dfas] ! n)))"
    "j = [Suc i..<length dfas] ! n"
    "\<forall>m<n. \<not> DFAState_eq (h ! (dfas ! i)) (h ! (dfas ! ([Suc i..<length dfas] ! m)))"
    unfolding first_equal_def find_Some_iff by blast
  from n(1,3) have j: "j = Suc i + n" "j < length dfas" by auto
  have "\<not> DFAState_eq (h ! (dfas ! i)) (h ! (dfas ! k))" if "i < k" "k < j" for k
  proof -
    from that j have "k - Suc i < n" "[Suc i..<length dfas] ! (k - Suc i) = k" by auto
    with n(4) show ?thesis by metis
  qed
  with j n(2,3) show ?thesis by auto
qed

lemma DFAState_eq_iff:
  assumes "distinct (map fst (arcs s))" and "distinct (map fst (arcs t))"
  shows "DFAState_eq s t \<longleftrightarrow> is_final s = is_final t \<and> map_of (arcs s) = map_of (arcs t)"
proof -
  have ds: "distinct (arcs s)" and dt: "distinct (arcs t)"
    using assms by (simp_all add: distinct_map)
  have "length (arcs s) = length (arcs t) \<and>
        list_all (\<lambda>(label, nxt). map_of (arcs t) label = Some nxt) (arcs s)
      \<longleftrightarrow> map_of (arcs s) = map_of (arcs t)" (is "?L \<longleftrightarrow> ?R")
  proof
    assume ?L
    then have "set (arcs s) \<subseteq> set (arcs t)"
      by (auto simp: list_all_iff dest: map_of_SomeD)
    moreover from \<open>?L\<close> ds dt have "card (set (arcs s)) = card (set (arcs t))"
      by (simp add: distinct_card)
    ultimately have "set (arcs s) = set (arcs t)"
      by (intro card_subset_eq) simp_all
    with assms show ?R by (simp add: map_of_inject_set)
  next
    assume ?R
    with assms have e: "set (arcs s) = set (arcs t)" by (simp add: map_of_inject_set)
    with ds dt have "length (arcs s) = length (arcs t)"
      by (metis distinct_card)
    moreover have "list_all (\<lambda>(label, nxt). map_of (arcs t) label = Some nxt) (arcs s)"
      using e assms(2) by (auto simp: list_all_iff)
    ultimately show ?L ..
  qed
  then show ?thesis by (auto simp: DFAState_eq_def)
qed

text \<open>
  C2, as the claim states it, fails: the pair scan is not restarted after a merge. In the
  list \<open>states_six\<close> the first equal states are those at positions 2 and 3. Once the
  second of them is merged into the first, the states at positions 0 and 1 are equal, and
  a scan that is restarted meets this pair next. \<^verbatim>\<open>_simplify_dfas\<close> goes on with
  position 3 instead and merges the last state into the one before it in the same pass,
  which ends with the states at positions 0 and 1 both in the list; the next pass merges
  them. The list returned is the same, but the order of the merges shows in the state that
  was at position 1: it was still in the list when the last state was merged, so its arc
  on \<^verbatim>\<open>NUMBER\<close> has been rewritten, which a restarted scan leaves as it was.
\<close>

theorem simplify_dfas_not_restarted:
  "first_equal states_six [0, 1, 2, 3, 4, 5] 0 = None \<and>
   first_equal states_six [0, 1, 2, 3, 4, 5] 1 = None \<and>
   first_equal states_six [0, 1, 2, 3, 4, 5] 2 = Some 3 \<and>
   unify states_six [0, 1, 2, 3, 4, 5] 2 3 = (states_six_once, [0, 1, 2, 4, 5]) \<and>
   DFAState_eq (states_six_once ! 0) (states_six_once ! 1) \<and>
   first_pair states_six_once [0, 1, 2, 4, 5] [0..<5] = Some (0, 1) \<and>
   simplify_pass states_six_once [0, 1, 2, 4, 5] 3 True = (states_six_code, [0, 1, 2, 4], True) \<and>
   simplify_pass states_six [0, 1, 2, 3, 4, 5] 0 False = (states_six_code, [0, 1, 2, 4], True) \<and>
   simplify_dfas states_six [0, 1, 2, 3, 4, 5] = (states_six_code, [0, 2, 4]) \<and>
   spec_simplify_dfas states_six [0, 1, 2, 3, 4, 5] = (states_six_spec, [0, 2, 4]) \<and>
   arcs (states_six_code ! 1) = [(''NAME'', 2), (''NUMBER'', 4)] \<and>
   arcs (states_six_spec ! 1) = [(''NAME'', 2), (''NUMBER'', 5)] \<and>
   simplify_dfas states_six [0, 1, 2, 3, 4, 5] \<noteq> spec_simplify_dfas states_six [0, 1, 2, 3, 4, 5]"
proof -
  have f0: "first_equal states_six [0, 1, 2, 3, 4, 5] 0 = None"
    by code_simp
  have f1: "first_equal states_six [0, 1, 2, 3, 4, 5] 1 = None"
    by code_simp
  have f2: "first_equal states_six [0, 1, 2, 3, 4, 5] 2 = Some 3"
    by code_simp
  have u: "unify states_six [0, 1, 2, 3, 4, 5] 2 3 = (states_six_once, [0, 1, 2, 4, 5])"
    by code_simp
  have e: "DFAState_eq (states_six_once ! 0) (states_six_once ! 1)"
    by code_simp
  have r: "first_pair states_six_once [0, 1, 2, 4, 5] [0..<5] = Some (0, 1)"
    by code_simp
  have p3: "simplify_pass states_six_once [0, 1, 2, 4, 5] 3 True = (states_six_code, [0, 1, 2, 4], True)"
    by code_simp
  have p0: "simplify_pass states_six [0, 1, 2, 3, 4, 5] 0 False = (states_six_code, [0, 1, 2, 4], True)"
    by code_simp
  have c: "simplify_dfas states_six [0, 1, 2, 3, 4, 5] = (states_six_code, [0, 2, 4])"
    by code_simp
  have s: "spec_simplify_dfas states_six [0, 1, 2, 3, 4, 5] = (states_six_spec, [0, 2, 4])"
    by code_simp
  have a1: "arcs (states_six_code ! 1) = [(''NAME'', 2), (''NUMBER'', 4)]"
    by (simp add: states_six_code_def states_six_def)
  have a2: "arcs (states_six_spec ! 1) = [(''NAME'', 2), (''NUMBER'', 5)]"
    by (simp add: states_six_spec_def states_six_def)
  from a1 a2 have "states_six_code \<noteq> states_six_spec" by auto
  with c s have d: "simplify_dfas states_six [0, 1, 2, 3, 4, 5] \<noteq>
      spec_simplify_dfas states_six [0, 1, 2, 3, 4, 5]"
    by simp
  from f0 f1 f2 u e r p3 p0 c s a1 a2 d show ?thesis by blast
qed

text \<open>
  C2, amended: in a pass, the first state \<open>j\<close> after position \<open>i\<close> that is equal to the
  state at \<open>i\<close> (the same finality and, as maps, the same arcs) is removed from the list,
  and in every state that is left in the list each arc to the removed state becomes an arc
  to the state at \<open>i\<close>; then the pass goes on with position \<open>i + 1\<close> of the shorter list.
  Passes are repeated until one of them merges nothing: the list that \<^verbatim>\<open>_simplify_dfas\<close>
  returns is a subsequence of the one it was given, a pass over it changes nothing, and
  no two of its states are equal.
\<close>

theorem simplify_dfas_merges:
  fixes h h1 :: "'tok DFAState list"
  assumes run: "simplify_dfas h dfas = (h', dfas')"
    and found: "first_equal h1 dfas1 i = Some j"
    and merged: "unify h1 dfas1 i j = (h2, dfas2)"
  shows "(i < j \<and> j < length dfas1 \<and> DFAState_eq (h1 ! (dfas1 ! i)) (h1 ! (dfas1 ! j)) \<and>
      (\<forall>k. i < k \<and> k < j \<longrightarrow> \<not> DFAState_eq (h1 ! (dfas1 ! i)) (h1 ! (dfas1 ! k)))) \<and>
    (\<forall>s t :: 'tok DFAState. distinct (map fst (arcs s)) \<and> distinct (map fst (arcs t)) \<longrightarrow>
      DFAState_eq s t = (is_final s = is_final t \<and> map_of (arcs s) = map_of (arcs t))) \<and>
    dfas2 = take j dfas1 @ drop (Suc j) dfas1 \<and>
    (\<forall>a \<in> set dfas2. a < length h1 \<and> distinct (map fst (arcs (h1 ! a))) \<longrightarrow>
      arcs (h2 ! a) =
        map (\<lambda>(label, nxt). (label, if nxt = dfas1 ! j then dfas1 ! i else nxt)) (arcs (h1 ! a))) \<and>
    simplify_pass h1 dfas1 i changes = simplify_pass h2 dfas2 (Suc i) True \<and>
    subseq dfas' dfas \<and>
    simplify_pass h' dfas' 0 False = (h', dfas', False) \<and>
    (\<forall>i j. i < j \<and> j < length dfas' \<longrightarrow> \<not> DFAState_eq (h' ! (dfas' ! i)) (h' ! (dfas' ! j)))"
proof (intro conjI)
  from first_equal_first [OF found]
  show "i < j" "j < length dfas1" "DFAState_eq (h1 ! (dfas1 ! i)) (h1 ! (dfas1 ! j))"
    "\<forall>k. i < k \<and> k < j \<longrightarrow> \<not> DFAState_eq (h1 ! (dfas1 ! i)) (h1 ! (dfas1 ! k))"
    by simp_all
  show "\<forall>s t :: 'tok DFAState. distinct (map fst (arcs s)) \<and> distinct (map fst (arcs t)) \<longrightarrow>
      DFAState_eq s t = (is_final s = is_final t \<and> map_of (arcs s) = map_of (arcs t))"
    by (simp add: DFAState_eq_iff)
  show "dfas2 = take j dfas1 @ drop (Suc j) dfas1"
    using merged by (rule unify_keeps)
  show "\<forall>a \<in> set dfas2. a < length h1 \<and> distinct (map fst (arcs (h1 ! a))) \<longrightarrow>
      arcs (h2 ! a) =
        map (\<lambda>(label, nxt). (label, if nxt = dfas1 ! j then dfas1 ! i else nxt)) (arcs (h1 ! a))"
    using unify_arcs [OF merged] by blast
  from first_equal_Some [OF found] found merged
  show "simplify_pass h1 dfas1 i changes = simplify_pass h2 dfas2 (Suc i) True"
    by (simp add: simplify_pass.simps [of h1 dfas1 i])
  show "subseq dfas' dfas"
    using run by (rule simplify_dfas_subseq)
  show last: "simplify_pass h' dfas' 0 False = (h', dfas', False)"
    using run by (rule simplify_dfas_fixpoint)
  from simplify_pass_unchanged [OF last] have "first_equal h' dfas' i = None" for i
    by simp
  then show "\<forall>i j. i < j \<and> j < length dfas' \<longrightarrow>
      \<not> DFAState_eq (h' ! (dfas' ! i)) (h' ! (dfas' ! j))"
    unfolding first_equal_None_iff by blast
qed

theorem simplify_dfas_merges_witness:
  "simplify_dfas states_merge [0, 1, 2, 3] = (states_merged, [0, 1, 3]) \<and>
   first_equal states_merge [0, 1, 2, 3] 1 = Some 2 \<and>
   unify states_merge [0, 1, 2, 3] 1 2 = (states_merged, [0, 1, 3]) \<and>
   DFAState_eq (states_merge ! 1) (states_merge ! 2) \<and>
   arcs (states_merged ! 0) = [(''NAME'', 1), (''NUMBER'', 1)] \<and>
   simplify_pass states_merge [0, 1, 2, 3] 1 False = simplify_pass states_merged [0, 1, 3] 2 True \<and>
   subseq [0, 1, 3] [0, 1, 2, 3 :: nat] \<and>
   simplify_pass states_merged [0, 1, 3] 0 False = (states_merged, [0, 1, 3], False) \<and>
   \<not> DFAState_eq (states_merged ! 1) (states_merged ! 3)"
proof -
  have s: "simplify_dfas states_merge [0, 1, 2, 3] = (states_merged, [0, 1, 3])"
    by code_simp
  have f: "first_equal states_merge [0, 1, 2, 3] 1 = Some 2"
    by code_simp
  have u: "unify states_merge [0, 1, 2, 3] 1 2 = (states_merged, [0, 1, 3])"
    by code_simp
  have a: "arcs (states_merged ! 0) = [(''NAME'', 1), (''NUMBER'', 1)]"
    by (simp add: states_merged_def states_merge_def)
  note t = simplify_dfas_merges [OF s f u, of False]
  from t have "DFAState_eq (states_merge ! ([0, 1, 2, 3] ! 1)) (states_merge ! ([0, 1, 2, 3] ! 2))"
    by blast
  then have e: "DFAState_eq (states_merge ! 1) (states_merge ! 2)" by simp
  from t have p: "simplify_pass states_merge [0, 1, 2, 3] 1 False =
      simplify_pass states_merged [0, 1, 3] (Suc 1) True"
    by blast
  from t have q: "subseq [0, 1, 3] [0, 1, 2, 3 :: nat]"
    "simplify_pass states_merged [0, 1, 3] 0 False = (states_merged, [0, 1, 3], False)"
    by blast+
  from t have "\<forall>i j. i < j \<and> j < length [0, 1, 3 :: nat] \<longrightarrow>
      \<not> DFAState_eq (states_merged ! ([0, 1, 3] ! i)) (states_merged ! ([0, 1, 3] ! j))"
    by blast
  then have "\<not> DFAState_eq (states_merged ! ([0, 1, 3] ! 1)) (states_merged ! ([0, 1, 3] ! 2))"
    by (metis One_nat_def Suc_1 lessI length_Cons list.size(3) numeral_3_eq_3)
  then have n: "\<not> DFAState_eq (states_merged ! 1) (states_merged ! 3)" by simp
  from s f u e a p q n show ?thesis by (simp add: numeral_2_eq_2)
qed

subsection \<open>The table of reserved strings\<close>

lemma resolves_mono:
  "resolves tn le r label t \<Longrightarrow> prefix r r' \<Longrightarrow> resolves tn le r' label t"
  unfolding resolves_def by (meson prefix_order.trans)

lemma map_of_prefix:
  "prefix r r' \<Longrightarrow> map_of r v = Some x \<Longrightarrow> map_of r' v = Some x"
  by (auto simp: prefix_def)

lemma make_transition_literal:
  assumes "literal_label label"
  shows "make_transition tn le r label =
     (case le label of
        None \<Rightarrow> Inl LiteralEvalError
      | Some v \<Rightarrow>
          (case map_of r v of
             Some x \<Rightarrow> Inr (Reserved x, r)
           | None \<Rightarrow> Inr (Reserved \<lparr>rs_id = length r, rs_value = v\<rparr>,
                          r @ [(v, \<lparr>rs_id = length r, rs_value = v\<rparr>)])))"
proof -
  from assms obtain c rest where l: "label = c # rest" and c: "c = CHR 0x22 \<or> c = CHR 0x27"
    by (cases label) (auto simp: literal_label_def)
  from c have "\<not> isalpha c" by (auto simp: isalpha_def)
  with l c assms show ?thesis
    unfolding make_transition_def literal_label_def
    by (simp add: Let_def split: option.splits)
qed

lemma make_transition_name:
  assumes "\<not> literal_label label"
  shows "make_transition tn le r label =
     (case label of
        [] \<Rightarrow> Inl IndexError
      | c # _ \<Rightarrow>
          if isalpha c then
            (case tn label of None \<Rightarrow> Inl AttributeError | Some t \<Rightarrow> Inr (TokenType t, r))
          else Inl AssertionError)"
proof (cases label)
  case Nil
  then show ?thesis by (simp add: make_transition_def)
next
  case (Cons c rest)
  show ?thesis
  proof (cases "isalpha c")
    case True
    with Cons show ?thesis by (simp add: make_transition_def)
  next
    case False
    with Cons assms show ?thesis
      unfolding make_transition_def literal_label_def by auto
  qed
qed

lemma make_transition_table:
  assumes "make_transition tn le r label = Inr (t, r')"
  shows "prefix r r'" and "resolves tn le r' label t" and "interned r \<Longrightarrow> interned r'"
proof -
  have "prefix r r' \<and> resolves tn le r' label t \<and> (interned r \<longrightarrow> interned r')"
  proof (cases "literal_label label")
    case False
    from assms have "r' = r \<and> (\<forall>r''. make_transition tn le r'' label = Inr (t, r''))"
      unfolding make_transition_name [OF False]
      by (auto split: list.splits if_splits option.splits)
    then show ?thesis by (simp add: resolves_def)
  next
    case True
    from assms obtain v where v: "le label = Some v"
      unfolding make_transition_literal [OF True] by (auto split: option.splits)
    show ?thesis
    proof (cases "map_of r v")
      case (Some x)
      with assms v have e: "t = Reserved x" "r' = r"
        unfolding make_transition_literal [OF True] by simp_all
      have "resolves tn le r label (Reserved x)"
        unfolding resolves_def make_transition_literal [OF True]
        using v Some by (auto dest: map_of_prefix)
      with e show ?thesis by simp
    next
      case None
      let ?x = "\<lparr>rs_id = length r, rs_value = v\<rparr>"
      from None assms v have e: "t = Reserved ?x" "r' = r @ [(v, ?x)]"
        unfolding make_transition_literal [OF True] by simp_all
      from None have m: "map_of r' v = Some ?x" unfolding e by (simp add: map_add_def)
      have "resolves tn le r' label (Reserved ?x)"
        unfolding resolves_def make_transition_literal [OF True]
        using v m by (auto dest: map_of_prefix)
      moreover have "interned r'" if "interned r"
        using that unfolding e interned_def by (auto simp: nth_append less_Suc_eq)
      ultimately show ?thesis using e by simp
    qed
  qed
  then show "prefix r r'" and "resolves tn le r' label t" and "interned r \<Longrightarrow> interned r'"
    by simp_all
qed

lemma resolves_literal:
  assumes "resolves tn le r label t" and "literal_label label" and "le label = Some v"
  shows "\<exists>x. map_of r v = Some x \<and> t = Reserved x"
proof -
  from assms(1) have "make_transition tn le r label = Inr (t, r)"
    by (simp add: resolves_def)
  with assms(2,3) show ?thesis
    unfolding make_transition_literal [OF assms(2)] by (auto split: option.splits)
qed

subsection \<open>The second loop of \<^verbatim>\<open>generate_grammar\<close>\<close>

lemma compile_arc_cases:
  assumes "compile_arc tn le rules (l, n) (s, r) = Inr (s', r')"
  shows "(l \<in> set rules \<and> r' = r \<and>
       s' = s\<lparr>nonterminal_arcs := AList.update l n (nonterminal_arcs s)\<rparr>) \<or>
     (l \<notin> set rules \<and> (\<exists>t. make_transition tn le r l = Inr (t, r') \<and>
       s' = s\<lparr>ilabel_to_plan := AList.update t (DFAPlan n) (ilabel_to_plan s)\<rparr>))"
  using assms by (auto split: if_splits sum.splits)

lemma compile_arcs_table:
  assumes "for_each (compile_arc tn le rules) as (s, r) = Inr (s', r')"
  shows "prefix r r' \<and> (interned r \<longrightarrow> interned r')"
proof -
  have "prefix r (snd (s', r')) \<and> (interned r \<longrightarrow> interned (snd (s', r')))"
    using assms
  proof (rule for_each_invariant [where P = "\<lambda>x. prefix r (snd x) \<and> (interned r \<longrightarrow> interned (snd x))"])
    fix a and x x' :: "'a DFAState \<times> (string \<times> ReservedString) list"
    assume P: "prefix r (snd x) \<and> (interned r \<longrightarrow> interned (snd x))"
      and c: "compile_arc tn le rules a x = Inr x'"
    obtain l n s1 r1 s2 r2 where e: "a = (l, n)" "x = (s1, r1)" "x' = (s2, r2)"
      by (metis surj_pair)
    from compile_arc_cases [OF c [unfolded e]] make_transition_table(1,3) [of tn le r1 l _ r2]
    have "prefix r1 r2 \<and> (interned r1 \<longrightarrow> interned r2)" by auto
    with P show "prefix r (snd x') \<and> (interned r \<longrightarrow> interned (snd x'))"
      unfolding e by (auto intro: prefix_order.trans)
  qed simp
  then show ?thesis by simp
qed

lemma compile_arcs_result:
  assumes "for_each (compile_arc tn le rules) as (s, r) = Inr (s', r')"
  shows "arcs s' = arcs s \<and>
    (\<forall>l. map_of (nonterminal_arcs s') l =
       (if l \<in> set rules
        then (case map_of (rev as) l of Some n \<Rightarrow> Some n | None \<Rightarrow> map_of (nonterminal_arcs s) l)
        else map_of (nonterminal_arcs s) l)) \<and>
    (\<forall>l n. (l, n) \<in> set as \<and> l \<notin> set rules \<longrightarrow>
       (\<exists>t l' n'. resolves tn le r' l t \<and> (l', n') \<in> set as \<and> l' \<notin> set rules \<and>
          resolves tn le r' l' t \<and> map_of (ilabel_to_plan s') t = Some (DFAPlan n'))) \<and>
    (\<forall>t p. map_of (ilabel_to_plan s) t = Some p \<longrightarrow>
       map_of (ilabel_to_plan s') t = Some p \<or>
       (\<exists>l' n'. (l', n') \<in> set as \<and> l' \<notin> set rules \<and> resolves tn le r' l' t \<and>
          map_of (ilabel_to_plan s') t = Some (DFAPlan n')))"
  using assms
proof (induction as arbitrary: s r)
  case Nil
  then show ?case by simp
next
  case (Cons a as)
  obtain l0 n0 where a: "a = (l0, n0)" by force
  from Cons.prems a obtain s1 r1 where
    c: "compile_arc tn le rules (l0, n0) (s, r) = Inr (s1, r1)" and
    f: "for_each (compile_arc tn le rules) as (s1, r1) = Inr (s', r')"
    by (auto split: sum.splits)
  note IH = Cons.IH [OF f]
  from IH have IH1: "arcs s' = arcs s1"
    and IH2: "\<And>l. map_of (nonterminal_arcs s') l =
       (if l \<in> set rules
        then (case map_of (rev as) l of Some n \<Rightarrow> Some n | None \<Rightarrow> map_of (nonterminal_arcs s1) l)
        else map_of (nonterminal_arcs s1) l)"
    and IH3: "\<And>l n. (l, n) \<in> set as \<Longrightarrow> l \<notin> set rules \<Longrightarrow>
       \<exists>t l' n'. resolves tn le r' l t \<and> (l', n') \<in> set as \<and> l' \<notin> set rules \<and>
          resolves tn le r' l' t \<and> map_of (ilabel_to_plan s') t = Some (DFAPlan n')"
    and IH4: "\<And>t p. map_of (ilabel_to_plan s1) t = Some p \<Longrightarrow>
       map_of (ilabel_to_plan s') t = Some p \<or>
       (\<exists>l' n'. (l', n') \<in> set as \<and> l' \<notin> set rules \<and> resolves tn le r' l' t \<and>
          map_of (ilabel_to_plan s') t = Some (DFAPlan n'))"
    by blast+
  from compile_arc_cases [OF c] show ?case
  proof (elim disjE conjE exE)
    assume rule: "l0 \<in> set rules" and r1: "r1 = r"
      and s1: "s1 = s\<lparr>nonterminal_arcs := AList.update l0 n0 (nonterminal_arcs s)\<rparr>"
    have 1: "arcs s' = arcs s" using IH1 s1 by simp
    have 2: "map_of (nonterminal_arcs s') l =
       (if l \<in> set rules
        then (case map_of (rev (a # as)) l of Some n \<Rightarrow> Some n | None \<Rightarrow> map_of (nonterminal_arcs s) l)
        else map_of (nonterminal_arcs s) l)" for l
      unfolding IH2 [of l] using rule
      by (auto simp: s1 a update_conv' map_add_def split: option.splits)
    have 3: "\<exists>t l' n'. resolves tn le r' l t \<and> (l', n') \<in> set (a # as) \<and> l' \<notin> set rules \<and>
          resolves tn le r' l' t \<and> map_of (ilabel_to_plan s') t = Some (DFAPlan n')"
      if "(l, n) \<in> set (a # as)" "l \<notin> set rules" for l n
    proof -
      from that rule a have "(l, n) \<in> set as" by auto
      from IH3 [OF this that(2)] show ?thesis by auto
    qed
    have 4: "map_of (ilabel_to_plan s') t = Some p \<or>
       (\<exists>l' n'. (l', n') \<in> set (a # as) \<and> l' \<notin> set rules \<and> resolves tn le r' l' t \<and>
          map_of (ilabel_to_plan s') t = Some (DFAPlan n'))"
      if "map_of (ilabel_to_plan s) t = Some p" for t p
      using IH4 [of t p] that s1 by auto
    from 1 2 3 4 show ?thesis by blast
  next
    fix t0
    assume terminal: "l0 \<notin> set rules" and m: "make_transition tn le r l0 = Inr (t0, r1)"
      and s1: "s1 = s\<lparr>ilabel_to_plan := AList.update t0 (DFAPlan n0) (ilabel_to_plan s)\<rparr>"
    from compile_arcs_table [OF f] have p: "prefix r1 r'" by simp
    from make_transition_table(2) [OF m] p have res0: "resolves tn le r' l0 t0"
      by (rule resolves_mono)
    have new: "map_of (ilabel_to_plan s1) t0 = Some (DFAPlan n0)"
      by (simp add: s1 update_conv')
    have after0: "\<exists>l' n'. (l', n') \<in> set (a # as) \<and> l' \<notin> set rules \<and> resolves tn le r' l' t0 \<and>
          map_of (ilabel_to_plan s') t0 = Some (DFAPlan n')"
      using IH4 [OF new] terminal res0 a by auto
    have 1: "arcs s' = arcs s" using IH1 s1 by simp
    have 2: "map_of (nonterminal_arcs s') l =
       (if l \<in> set rules
        then (case map_of (rev (a # as)) l of Some n \<Rightarrow> Some n | None \<Rightarrow> map_of (nonterminal_arcs s) l)
        else map_of (nonterminal_arcs s) l)" for l
      unfolding IH2 [of l] using terminal
      by (auto simp: s1 a map_add_def split: option.splits)
    have 3: "\<exists>t l' n'. resolves tn le r' l t \<and> (l', n') \<in> set (a # as) \<and> l' \<notin> set rules \<and>
          resolves tn le r' l' t \<and> map_of (ilabel_to_plan s') t = Some (DFAPlan n')"
      if "(l, n) \<in> set (a # as)" "l \<notin> set rules" for l n
    proof (cases "(l, n) \<in> set as")
      case True
      from IH3 [OF this that(2)] show ?thesis by auto
    next
      case False
      with that(1) a have "l = l0" by simp
      with res0 after0 show ?thesis by blast
    qed
    have 4: "map_of (ilabel_to_plan s') t = Some p \<or>
       (\<exists>l' n'. (l', n') \<in> set (a # as) \<and> l' \<notin> set rules \<and> resolves tn le r' l' t \<and>
          map_of (ilabel_to_plan s') t = Some (DFAPlan n'))"
      if "map_of (ilabel_to_plan s) t = Some p" for t p
    proof (cases "t = t0")
      case True
      with after0 show ?thesis by simp
    next
      case False
      with that have "map_of (ilabel_to_plan s1) t = Some p"
        by (simp add: s1 update_conv')
      from IH4 [OF this] show ?thesis by auto
    qed
    from 1 2 3 4 show ?thesis by blast
  qed
qed

lemma compile_state_cases:
  assumes "compile_state tn le rules a (h, r) = Inr (h', r')"
  shows "\<exists>s. for_each (compile_arc tn le rules) (arcs (h ! a)) (h ! a, r) = Inr (s, r') \<and>
    h' = h[a := s]"
  using assms by (auto split: sum.splits)

lemma compile_states_result:
  assumes "for_each (compile_state tn le rules) dfas (h, r) = Inr (h', r')"
    and "distinct dfas" and "set dfas \<subseteq> {..<length h}"
  shows "prefix r r' \<and> (interned r \<longrightarrow> interned r') \<and> length h' = length h \<and>
    (\<forall>a \<in> set dfas. \<exists>ra rb. prefix rb r' \<and>
       for_each (compile_arc tn le rules) (arcs (h ! a)) (h ! a, ra) = Inr (h' ! a, rb)) \<and>
    (\<forall>b. b \<notin> set dfas \<longrightarrow> h' ! b = h ! b)"
  using assms
proof (induction dfas arbitrary: h r)
  case Nil
  then show ?case by simp
next
  case (Cons a dfas)
  from Cons.prems(1) obtain h1 r1 where
    c: "compile_state tn le rules a (h, r) = Inr (h1, r1)" and
    f: "for_each (compile_state tn le rules) dfas (h1, r1) = Inr (h', r')"
    by (auto split: sum.splits)
  from compile_state_cases [OF c] obtain s where
    s: "for_each (compile_arc tn le rules) (arcs (h ! a)) (h ! a, r) = Inr (s, r1)"
    and h1: "h1 = h[a := s]" by blast
  from Cons.prems(2,3) have d: "distinct dfas" "set dfas \<subseteq> {..<length h1}" "a \<notin> set dfas"
    "a < length h"
    by (auto simp: h1)
  from Cons.IH [OF f d(1,2)] have
    IH1: "prefix r1 r'" "interned r1 \<longrightarrow> interned r'" "length h' = length h1"
    and IH2: "\<And>b. b \<in> set dfas \<Longrightarrow> \<exists>ra rb. prefix rb r' \<and>
       for_each (compile_arc tn le rules) (arcs (h1 ! b)) (h1 ! b, ra) = Inr (h' ! b, rb)"
    and IH3: "\<And>b. b \<notin> set dfas \<Longrightarrow> h' ! b = h1 ! b"
    by blast+
  from compile_arcs_table [OF s] have t: "prefix r r1" "interned r \<longrightarrow> interned r1" by simp_all
  have "\<exists>ra rb. prefix rb r' \<and>
       for_each (compile_arc tn le rules) (arcs (h ! b)) (h ! b, ra) = Inr (h' ! b, rb)"
    if "b \<in> set (a # dfas)" for b
  proof (cases "b = a")
    case True
    from IH3 [OF d(3)] d(4) have "h' ! a = s" by (simp add: h1)
    with s IH1(1) True show ?thesis by blast
  next
    case False
    with that have b: "b \<in> set dfas" by simp
    from False have "h1 ! b = h ! b" by (simp add: h1)
    with IH2 [OF b] show ?thesis by simp
  qed
  moreover have "h' ! b = h ! b" if "b \<notin> set (a # dfas)" for b
    using IH3 [of b] that by (simp add: h1)
  ultimately show ?case
    using IH1 t by (auto simp: h1 intro: prefix_order.trans)
qed

lemma compile_rules_result:
  assumes "for_each (compile_rule tn le rules) rt (compiled, r) = Inr (compiled', r')"
    and "\<forall>(name, h, dfas) \<in> set rt. distinct dfas \<and> set dfas \<subseteq> {..<length h}"
  shows "prefix r r' \<and> (interned r \<longrightarrow> interned r') \<and>
    map fst compiled' = map fst compiled @ map fst rt \<and>
    (\<forall>(name, h', dfas) \<in> set compiled'. (name, h', dfas) \<in> set compiled \<or>
       (\<exists>h ra rb. (name, h, dfas) \<in> set rt \<and> prefix rb r' \<and>
          for_each (compile_state tn le rules) dfas (h, ra) = Inr (h', rb)))"
  using assms
proof (induction rt arbitrary: compiled r)
  case Nil
  then show ?case by auto
next
  case (Cons item rt)
  obtain name h dfas where item: "item = (name, h, dfas)" by (metis prod_cases3)
  from Cons.prems(1) item obtain h1 r1 where
    c: "for_each (compile_state tn le rules) dfas (h, r) = Inr (h1, r1)" and
    f: "for_each (compile_rule tn le rules) rt (compiled @ [(name, h1, dfas)], r1) = Inr (compiled', r')"
    by (auto split: sum.splits)
  from Cons.prems(2) item have ok: "distinct dfas" "set dfas \<subseteq> {..<length h}"
    and oks: "\<forall>(name, h, dfas) \<in> set rt. distinct dfas \<and> set dfas \<subseteq> {..<length h}"
    by auto
  from compile_states_result [OF c ok] have t: "prefix r r1" "interned r \<longrightarrow> interned r1"
    by simp_all
  from Cons.IH [OF f oks] have IH1: "prefix r1 r'" "interned r1 \<longrightarrow> interned r'"
    "map fst compiled' = map fst (compiled @ [(name, h1, dfas)]) @ map fst rt"
    and IH2: "\<forall>(n, h', d) \<in> set compiled'. (n, h', d) \<in> set (compiled @ [(name, h1, dfas)]) \<or>
       (\<exists>h ra rb. (n, h, d) \<in> set rt \<and> prefix rb r' \<and>
          for_each (compile_state tn le rules) d (h, ra) = Inr (h', rb))"
    by blast+
  have "(n, h', d) \<in> set compiled \<or>
       (\<exists>h ra rb. (n, h, d) \<in> set (item # rt) \<and> prefix rb r' \<and>
          for_each (compile_state tn le rules) d (h, ra) = Inr (h', rb))"
    if "(n, h', d) \<in> set compiled'" for n h' d
  proof -
    from IH2 that have "(n, h', d) \<in> set (compiled @ [(name, h1, dfas)]) \<or>
       (\<exists>h ra rb. (n, h, d) \<in> set rt \<and> prefix rb r' \<and>
          for_each (compile_state tn le rules) d (h, ra) = Inr (h', rb))"
      by blast
    then show ?thesis
    proof (elim disjE)
      assume "(n, h', d) \<in> set (compiled @ [(name, h1, dfas)])"
      then show ?thesis
        using c IH1(1) item by auto
    qed auto
  qed
  then show ?case
    using IH1 t item by (auto intro: prefix_order.trans)
qed

subsection \<open>The first loop of \<^verbatim>\<open>generate_grammar\<close>\<close>

lemma make_dfas_uncompiled:
  assumes "make_dfas ord g start finish = Inr states"
  shows "uncompiled states"
  using assms
proof (rule make_dfas_invariant)
  fix i item and states states' :: "'a DFAState list"
  assume i: "i < length states" and P: "uncompiled states"
    and c: "connect (nfa_from_rule (nfa_node g start)) finish i item states = Inr states'"
  from connect_effect [OF c i] obtain new k where
    s: "states' = (states @ new)[i := (states ! i)\<lparr>arcs := arcs (states ! i) @ [(fst item, k)]\<rparr>]"
    and fresh: "fst item \<notin> fst ` set (arcs (states ! i))"
    and new: "new = [] \<or> new = [\<lparr>from_rule = nfa_from_rule (nfa_node g start), nfa_set = snd item,
      is_final = (finish \<in> snd item), arcs = [], ilabel_to_plan = [], nonterminal_arcs = []\<rparr>]"
    by blast
  have "set states' \<subseteq> insert ((states ! i)\<lparr>arcs := arcs (states ! i) @ [(fst item, k)]\<rparr>) (set (states @ new))"
    unfolding s by (rule set_update_subset_insert)
  moreover have "states ! i \<in> set states" using i by simp
  ultimately show "uncompiled states'"
    using P new fresh unfolding uncompiled_def by auto
qed (simp add: uncompiled_def)

lemma unifystate_keys: "map fst (arcs (unifystate s old new)) = map fst (arcs s)"
  unfolding unifystate_def using keys_unify_fold [of "arcs s" "arcs s" old new] by simp

lemma unify_uncompiled:
  assumes "unify h dfas i j = (h', dfas')" and "uncompiled h"
  shows "uncompiled h'"
proof -
  let ?f = "\<lambda>s :: 'a DFAState. unifystate s (dfas ! j) (dfas ! i)"
  let ?q = "\<lambda>s :: 'a DFAState. (map fst (arcs s), ilabel_to_plan s, nonterminal_arcs s)"
  from assms(1) have h': "h' = fold (\<lambda>a h. h[a := ?f (h ! a)]) dfas' h"
    by (auto simp: unify_def Let_def)
  have q: "?q (?f s) = ?q s" for s
    by (simp add: unifystate_keys) (simp add: unifystate_def)
  have m: "map ?q h' = map ?q h"
    unfolding h' using q by (rule fold_update_map)
  show ?thesis
    unfolding uncompiled_def
  proof (intro ballI)
    fix s assume "s \<in> set h'"
    then have "?q s \<in> set (map ?q h')" by simp
    with m have "?q s \<in> set (map ?q h)" by simp
    then obtain s0 where "s0 \<in> set h" "?q s = ?q s0" by (auto simp: image_iff)
    with assms(2) show "distinct (map fst (arcs s)) \<and> ilabel_to_plan s = [] \<and> nonterminal_arcs s = []"
      by (simp add: uncompiled_def)
  qed
qed

lemma subseq_upt:
  assumes "subseq dfas [0..<n]"
  shows "distinct dfas \<and> set dfas \<subseteq> {..<n}"
proof -
  from assms obtain N where "dfas = nths [0..<n] N" by (auto simp: subseq_conv_nths)
  then show ?thesis
    using set_nths_subset [of "[0..<n]" N] by auto
qed

lemma simplify_dfas_uncompiled:
  assumes "simplify_dfas states [0..<length states] = (h, dfas)" and "uncompiled states"
  shows "distinct dfas \<and> set dfas \<subseteq> {..<length h} \<and> uncompiled h"
proof -
  have "uncompiled h"
    using assms(1)
  proof (rule simplify_dfas_invariant [where P = "\<lambda>h1 dfas1. uncompiled h1"])
    show "uncompiled states" by (rule assms(2))
  qed (rule unify_uncompiled)
  moreover from simplify_dfas_keeps [OF assms(1)] have "length h = length states"
    by (auto dest: map_eq_imp_length_eq)
  ultimately show ?thesis
    using subseq_upt [OF simplify_dfas_subseq [OF assms(1)]] by simp
qed

lemma build_rules_result:
  assumes "for_each (build_rule ord g) fragments (rt0, start0) = Inr (rt, start)"
    and "\<forall>(name, h, dfas) \<in> set rt0. distinct dfas \<and> set dfas \<subseteq> {..<length h} \<and> uncompiled h"
  shows "fst ` set rt = fst ` set rt0 \<union> rule_names g fragments \<and>
    (\<forall>(name, h, dfas) \<in> set rt. distinct dfas \<and> set dfas \<subseteq> {..<length h} \<and> uncompiled h)"
  using assms
proof (induction fragments arbitrary: rt0 start0)
  case Nil
  then show ?case by (simp add: rule_names_def)
next
  case (Cons fragment fragments)
  obtain nfa_a nfa_z where fr: "fragment = (nfa_a, nfa_z)" by force
  from Cons.prems(1) fr obtain states where
    m: "make_dfas ord g nfa_a nfa_z = Inr states" and
    f: "for_each (build_rule ord g) fragments
          (AList.update (nfa_from_rule (nfa_node g nfa_a))
             (simplify_dfas states [0..<length states]) rt0,
           if start0 = None then Some (nfa_from_rule (nfa_node g nfa_a)) else start0)
        = Inr (rt, start)"
    by (auto split: sum.splits)
  let ?name = "nfa_from_rule (nfa_node g nfa_a)"
  let ?rt1 = "AList.update ?name (simplify_dfas states [0..<length states]) rt0"
  obtain h dfas where s: "simplify_dfas states [0..<length states] = (h, dfas)" by force
  from simplify_dfas_uncompiled [OF s make_dfas_uncompiled [OF m]]
  have ok: "distinct dfas \<and> set dfas \<subseteq> {..<length h} \<and> uncompiled h" .
  have "\<forall>(name, h, dfas) \<in> set ?rt1. distinct dfas \<and> set dfas \<subseteq> {..<length h} \<and> uncompiled h"
  proof
    fix e assume "e \<in> set ?rt1"
    with set_AList_update [of ?name "(h, dfas)" rt0] have "e = (?name, h, dfas) \<or> e \<in> set rt0"
      unfolding s by auto
    then show "case e of (name, h, dfas) \<Rightarrow>
        distinct dfas \<and> set dfas \<subseteq> {..<length h} \<and> uncompiled h"
    proof
      assume "e = (?name, h, dfas)"
      with ok show ?thesis by simp
    next
      assume "e \<in> set rt0"
      with Cons.prems(2) show ?thesis by (rule bspec)
    qed
  qed
  from Cons.IH [OF f this] have
    keys: "fst ` set rt = fst ` set ?rt1 \<union> rule_names g fragments" and
    oks: "\<forall>(name, h, dfas) \<in> set rt. distinct dfas \<and> set dfas \<subseteq> {..<length h} \<and> uncompiled h"
    by simp_all
  have "fst ` set ?rt1 = insert ?name (fst ` set rt0)"
    by (simp add: dom_update)
  moreover have "rule_names g (fragment # fragments) = insert ?name (rule_names g fragments)"
    by (simp add: rule_names_def fr)
  ultimately have "fst ` set rt = fst ` set rt0 \<union> rule_names g (fragment # fragments)"
    using keys by (simp only: Un_insert_left Un_insert_right)
  with oks show ?case by simp
qed

lemma interned_lookup:
  assumes "interned r" and "map_of r v = Some x"
  shows "rs_value x = v \<and> (\<forall>v' x'. map_of r v' = Some x' \<and> rs_id x' = rs_id x \<longrightarrow> x' = x)"
proof -
  have at: "\<exists>n < length r. r ! n = (w, y) \<and> y = \<lparr>rs_id = n, rs_value = w\<rparr>"
    if "map_of r w = Some y" for w y
  proof -
    from that have "(w, y) \<in> set r" by (rule map_of_SomeD)
    then obtain n where "n < length r" "r ! n = (w, y)" by (auto simp: in_set_conv_nth)
    with assms(1) show ?thesis unfolding interned_def by force
  qed
  from at [OF assms(2)] obtain n where n: "n < length r" "r ! n = (v, x)"
    "x = \<lparr>rs_id = n, rs_value = v\<rparr>" by blast
  have "x' = x" if "map_of r v' = Some x'" "rs_id x' = rs_id x" for v' x'
  proof -
    from at [OF that(1)] obtain m where m: "m < length r" "r ! m = (v', x')"
      "x' = \<lparr>rs_id = m, rs_value = v'\<rparr>" by blast
    from that(2) n(3) m(3) have "m = n" by simp
    with n(2) m(2) show ?thesis by simp
  qed
  with n(3) show ?thesis by auto
qed

lemma generate_grammar_state:
  fixes G :: "'tok Grammar"
  assumes "generate_grammar ord tn le g fragments = Inr G"
  shows "fst ` set (nonterminal_to_dfas G) = rule_names g fragments"
    and "interned (reserved_syntax_strings G)"
    and "(rule, h', dfas) \<in> set (nonterminal_to_dfas G) \<Longrightarrow> a \<in> set dfas \<Longrightarrow>
      \<exists>(s :: 'tok DFAState) ra rb.
        for_each (compile_arc tn le (map fst (nonterminal_to_dfas G))) (arcs s) (s, ra) = Inr (h' ! a, rb) \<and>
        prefix rb (reserved_syntax_strings G) \<and> distinct (map fst (arcs s)) \<and>
        ilabel_to_plan s = [] \<and> nonterminal_arcs s = []"
proof -
  from assms obtain rt :: "(string \<times> 'tok DFAState list \<times> nat list) list" and start compiled R where
    b: "for_each (build_rule ord g) fragments ([], None) = Inr (rt, start)" and
    c: "for_each (compile_rule tn le (map fst rt)) rt ([], []) = Inr (compiled, R)" and
    G: "G = \<lparr>start_nonterminal = start, nonterminal_to_dfas = compiled, reserved_syntax_strings = R\<rparr>"
    by (auto simp: generate_grammar_def split: sum.splits)
  from build_rules_result [OF b] have keys: "fst ` set rt = rule_names g fragments"
    and ok: "\<forall>(name, h, dfas) \<in> set rt. distinct dfas \<and> set dfas \<subseteq> {..<length h} \<and> uncompiled h"
    by simp_all
  from ok have ok': "\<forall>(name, h, dfas) \<in> set rt. distinct dfas \<and> set dfas \<subseteq> {..<length h}"
    by blast
  from compile_rules_result [OF c ok'] have names: "map fst compiled = map fst rt"
    and int: "interned R"
    and entries: "\<forall>(name, h', dfas) \<in> set compiled.
       (\<exists>h ra rb. (name, h, dfas) \<in> set rt \<and> prefix rb R \<and>
          for_each (compile_state tn le (map fst rt)) dfas (h, ra) = Inr (h', rb))"
    by (simp_all add: interned_def)
  from names have "fst ` set compiled = fst ` set rt" by (metis list.set_map)
  with keys show "fst ` set (nonterminal_to_dfas G) = rule_names g fragments" by (simp add: G)
  from int show "interned (reserved_syntax_strings G)" by (simp add: G)
  show "\<exists>(s :: 'tok DFAState) ra rb.
        for_each (compile_arc tn le (map fst (nonterminal_to_dfas G))) (arcs s) (s, ra) = Inr (h' ! a, rb) \<and>
        prefix rb (reserved_syntax_strings G) \<and> distinct (map fst (arcs s)) \<and>
        ilabel_to_plan s = [] \<and> nonterminal_arcs s = []"
    if "(rule, h', dfas) \<in> set (nonterminal_to_dfas G)" "a \<in> set dfas"
  proof -
    from that(1) entries obtain h ra rb where e: "(rule, h, dfas) \<in> set rt" "prefix rb R"
      "for_each (compile_state tn le (map fst rt)) dfas (h, ra) = Inr (h', rb)"
      unfolding G by auto
    from ok e(1) have g: "distinct dfas" "set dfas \<subseteq> {..<length h}" "uncompiled h" by auto
    from compile_states_result [OF e(3) g(1,2)] that(2) obtain ra' rb' where
      f: "prefix rb' rb"
        "for_each (compile_arc tn le (map fst rt)) (arcs (h ! a)) (h ! a, ra') = Inr (h' ! a, rb')"
      by blast
    from g(2) that(2) have "h ! a \<in> set h" by auto
    with g(3) have u: "distinct (map fst (arcs (h ! a)))" "ilabel_to_plan (h ! a) = []"
      "nonterminal_arcs (h ! a) = []"
      by (auto simp: uncompiled_def)
    from f(1) e(2) have "prefix rb' R" by (rule prefix_order.trans)
    with f(2) u names show ?thesis
      unfolding G by auto
  qed
qed

lemma compiled_terminal:
  fixes G :: "'tok Grammar"
  assumes "generate_grammar ord token_namespace literal_eval g fragments = Inr G"
    and "(rule, h, dfas) \<in> set (nonterminal_to_dfas G)"
    and "a \<in> set dfas"
    and "(label, nxt) \<in> set (arcs (h ! a))"
    and "label \<notin> fst ` set (nonterminal_to_dfas G)"
  shows "\<exists>t nxt'.
    make_transition token_namespace literal_eval (reserved_syntax_strings G) label =
      Inr (t, reserved_syntax_strings G) \<and>
    map_of (ilabel_to_plan (h ! a)) t = Some (DFAPlan nxt')"
proof -
  let ?rules = "map fst (nonterminal_to_dfas G)"
  from generate_grammar_state(3) [OF assms(1,2,3)] obtain s :: "'tok DFAState" and ra rb where
    f: "for_each (compile_arc token_namespace literal_eval ?rules) (arcs s) (s, ra) = Inr (h ! a, rb)"
    and p: "prefix rb (reserved_syntax_strings G)"
    by blast
  note res = compile_arcs_result [OF f]
  from res have "arcs (h ! a) = arcs s" by simp
  with res assms(4,5) obtain t nxt' where
    "resolves token_namespace literal_eval rb label t"
    "map_of (ilabel_to_plan (h ! a)) t = Some (DFAPlan nxt')"
    by (metis (no_types, lifting) list.set_map)
  with p show ?thesis by (auto simp: resolves_def)
qed

subsection \<open>Compiled transitions\<close>

lemma generate_grammar_if:
  "generate_grammar sorted_list_of_set token_types unquote nfa_if [(0, 2), (3, 5)] = Inr grammar_if"
  by code_simp

lemma generate_grammar_item:
  "generate_grammar sorted_list_of_set token_types unquote nfa_item [(0, 1)] = Inr grammar_item"
  by code_simp

lemma key_targets_Cons:
  "key_targets tn le r rules ((l, n) # as) t =
     (if l \<notin> set rules \<and> make_transition tn le r l = Inr (t, r) then [n] else []) @
     key_targets tn le r rules as t"
  by (simp add: key_targets_def)

lemma key_targets_Nil: "key_targets tn le r rules [] t = []"
  by (simp add: key_targets_def)

lemma resolves_here: "resolves tn le r l t \<Longrightarrow> make_transition tn le r l = Inr (t, r)"
  by (simp add: resolves_def)

lemma compile_arcs_last:
  assumes "for_each (compile_arc tn le rules) as (s, r) = Inr (s', r')"
  shows "map_of (ilabel_to_plan s') t =
    (if key_targets tn le r' rules as t = [] then map_of (ilabel_to_plan s) t
     else Some (DFAPlan (last (key_targets tn le r' rules as t))))"
  using assms
proof (induction as arbitrary: s r)
  case Nil
  then show ?case by (simp add: key_targets_Nil)
next
  case (Cons a as)
  obtain l0 n0 where a: "a = (l0, n0)" by force
  from Cons.prems a obtain s1 r1 where
    c: "compile_arc tn le rules (l0, n0) (s, r) = Inr (s1, r1)" and
    f: "for_each (compile_arc tn le rules) as (s1, r1) = Inr (s', r')"
    by (auto split: sum.splits)
  note IH = Cons.IH [OF f]
  from compile_arc_cases [OF c] show ?case
  proof (elim disjE conjE exE)
    assume "l0 \<in> set rules"
      and "s1 = s\<lparr>nonterminal_arcs := AList.update l0 n0 (nonterminal_arcs s)\<rparr>"
    then show ?thesis
      unfolding IH a key_targets_Cons by simp
  next
    fix t0
    assume terminal: "l0 \<notin> set rules" and m: "make_transition tn le r l0 = Inr (t0, r1)"
      and s1: "s1 = s\<lparr>ilabel_to_plan := AList.update t0 (DFAPlan n0) (ilabel_to_plan s)\<rparr>"
    from compile_arcs_table [OF f] have "prefix r1 r'" by simp
    with make_transition_table(2) [OF m] have "resolves tn le r' l0 t0"
      by (rule resolves_mono)
    then have here: "make_transition tn le r' l0 = Inr (t0, r')"
      by (rule resolves_here)
    show ?thesis
    proof (cases "t = t0")
      case True
      with here terminal show ?thesis
        unfolding IH a key_targets_Cons by (simp add: s1 update_conv')
    next
      case False
      with here terminal show ?thesis
        unfolding IH a key_targets_Cons by (simp add: s1 update_conv')
    qed
  qed
qed

lemma key_targets_cong:
  assumes "\<And>l n. (l, n) \<in> set as \<Longrightarrow> l \<notin> set rules \<Longrightarrow>
      make_transition tn le r l = Inr (t, r) \<longleftrightarrow> make_transition tn le r' l = Inr (t, r')"
  shows "key_targets tn le r rules as t = key_targets tn le r' rules as t"
  unfolding key_targets_def
  by (rule arg_cong [where f = "map snd"], rule filter_cong) (use assms in auto)

text \<open>
  C7, as the claim states it, fails: not every label that is no name of a rule has an
  instruction that wraps the target of its arc in the table of the state. In the grammar of
  the rule \<^verbatim>\<open>item: 'if' NAME | "if" NUMBER\<close> the first state has an arc to state 1 on
  \<^verbatim>\<open>'if'\<close> and an arc to state 2 on \<^verbatim>\<open>"if"\<close>. Both labels resolve to the same
  \<^verbatim>\<open>ReservedString\<close>, so the instruction of the second arc replaces the one of the
  first: \<^verbatim>\<open>ilabel_to_plan\<close> has one entry, which wraps state 2, and no entry wraps state 1.
\<close>

theorem compile_transitions_collide:
  "generate_grammar sorted_list_of_set token_types unquote nfa_item [(0, 1)] = Inr grammar_item \<and>
   (''item'', item_states, [0, 1, 2, 3]) \<in> set (nonterminal_to_dfas grammar_item) \<and>
   (0 :: nat) \<in> set [0, 1, 2, 3] \<and>
   (CHR 0x27 # ''if'' @ [CHR 0x27], 1) \<in> set (arcs (item_states ! 0)) \<and>
   CHR 0x27 # ''if'' @ [CHR 0x27] \<notin> fst ` set (nonterminal_to_dfas grammar_item) \<and>
   make_transition token_types unquote (reserved_syntax_strings grammar_item)
       (CHR 0x27 # ''if'' @ [CHR 0x27]) =
     Inr (Reserved \<lparr>rs_id = 0, rs_value = ''if''\<rparr>, reserved_syntax_strings grammar_item) \<and>
   ilabel_to_plan (item_states ! 0) = [(Reserved \<lparr>rs_id = 0, rs_value = ''if''\<rparr>, DFAPlan 2)] \<and>
   DFAPlan 1 \<notin> snd ` set (ilabel_to_plan (item_states ! 0))"
proof -
  note g = generate_grammar_item
  have m: "make_transition token_types unquote (reserved_syntax_strings grammar_item)
       (CHR 0x27 # ''if'' @ [CHR 0x27]) =
     Inr (Reserved \<lparr>rs_id = 0, rs_value = ''if''\<rparr>, reserved_syntax_strings grammar_item)"
    by code_simp
  from g m show ?thesis
    by (simp add: grammar_item_def item_states_def)
qed

text \<open>
  C7, amended: the keys of the table of rules of the compiled grammar are the names of all
  fragments, also of those that come later in the list. For an arc of a state of the
  grammar, the label is a key of \<^verbatim>\<open>nonterminal_arcs\<close>, with the target of the arc as its
  value, exactly if it is a key of the table of rules. Any other label resolves to a
  transition in the table of reserved strings of the grammar; this transition is a key of
  \<^verbatim>\<open>ilabel_to_plan\<close>, and its plan wraps the target of the last arc of the state whose
  label is no name of a rule and resolves to the same transition: the target of this arc,
  if no other label of the state does. And whenever the body of the loop runs for the arc,
  the state it leaves has the label in \<^verbatim>\<open>nonterminal_arcs\<close> in the first case, and the
  transition with a plan that wraps the target of the arc in \<^verbatim>\<open>ilabel_to_plan\<close> in the
  second, until a later arc of the state stores its plan under the same transition.
\<close>

theorem compile_transitions:
  fixes G :: "'tok Grammar"
  assumes "generate_grammar ord token_namespace literal_eval g fragments = Inr G"
    and "(rule, h, dfas) \<in> set (nonterminal_to_dfas G)"
    and "a \<in> set dfas"
    and "(label, nxt) \<in> set (arcs (h ! a))"
  shows "fst ` set (nonterminal_to_dfas G) =
      (\<lambda>(nfa_a, nfa_z). nfa_from_rule (nfa_node g nfa_a)) ` set fragments \<and>
    (label \<in> fst ` set (nonterminal_to_dfas G) \<longleftrightarrow>
       map_of (nonterminal_arcs (h ! a)) label = Some nxt) \<and>
    (label \<in> fst ` set (nonterminal_to_dfas G) \<longleftrightarrow>
       label \<in> fst ` set (nonterminal_arcs (h ! a))) \<and>
    (label \<notin> fst ` set (nonterminal_to_dfas G) \<longrightarrow>
       (\<exists>t. make_transition token_namespace literal_eval (reserved_syntax_strings G) label =
              Inr (t, reserved_syntax_strings G) \<and>
            nxt \<in> set (key_targets token_namespace literal_eval (reserved_syntax_strings G)
                        (map fst (nonterminal_to_dfas G)) (arcs (h ! a)) t) \<and>
            map_of (ilabel_to_plan (h ! a)) t =
              Some (DFAPlan (last (key_targets token_namespace literal_eval (reserved_syntax_strings G)
                                     (map fst (nonterminal_to_dfas G)) (arcs (h ! a)) t))) \<and>
            (\<exists>label' nxt'. (label', nxt') \<in> set (arcs (h ! a)) \<and>
               label' \<notin> fst ` set (nonterminal_to_dfas G) \<and>
               make_transition token_namespace literal_eval (reserved_syntax_strings G) label' =
                 Inr (t, reserved_syntax_strings G) \<and>
               map_of (ilabel_to_plan (h ! a)) t = Some (DFAPlan nxt')) \<and>
            ((\<forall>label' nxt'. (label', nxt') \<in> set (arcs (h ! a)) \<and>
                make_transition token_namespace literal_eval (reserved_syntax_strings G) label' =
                  Inr (t, reserved_syntax_strings G) \<longrightarrow> label' = label) \<longrightarrow>
             map_of (ilabel_to_plan (h ! a)) t = Some (DFAPlan nxt)))) \<and>
    (\<forall>(s :: 'tok DFAState) r s' r'.
       compile_arc token_namespace literal_eval (map fst (nonterminal_to_dfas G)) (label, nxt) (s, r) =
         Inr (s', r') \<longrightarrow>
       (if label \<in> fst ` set (nonterminal_to_dfas G)
        then map_of (nonterminal_arcs s') label = Some nxt \<and> ilabel_to_plan s' = ilabel_to_plan s
        else nonterminal_arcs s' = nonterminal_arcs s \<and>
          (\<exists>t. make_transition token_namespace literal_eval r label = Inr (t, r') \<and>
               map_of (ilabel_to_plan s') t = Some (DFAPlan nxt))))"
proof -
  let ?rules = "map fst (nonterminal_to_dfas G)"
  let ?R = "reserved_syntax_strings G"
  note st = generate_grammar_state [OF assms(1)]
  from st(3) [OF assms(2,3)] obtain s :: "'tok DFAState" and ra rb where
    f: "for_each (compile_arc token_namespace literal_eval ?rules) (arcs s) (s, ra) = Inr (h ! a, rb)"
    and p: "prefix rb ?R" and d: "distinct (map fst (arcs s))"
    and e: "ilabel_to_plan s = []" "nonterminal_arcs s = []"
    by blast
  note res = compile_arcs_result [OF f]
  from res have arcs: "arcs (h ! a) = arcs s" by simp
  from res have nt: "map_of (nonterminal_arcs (h ! a)) l =
      (if l \<in> set ?rules then map_of (rev (arcs s)) l else None)" for l
    by (simp add: e split: option.splits)
  from d have dr: "distinct (map fst (rev (arcs s)))" by (simp add: rev_map [symmetric])
  from assms(4) arcs have in_rev: "(label, nxt) \<in> set (rev (arcs s))" by simp
  have last: "map_of (rev (arcs s)) label = Some nxt"
    using dr in_rev by (rule map_of_is_SomeI)
  have c1: "fst ` set (nonterminal_to_dfas G) =
      (\<lambda>(nfa_a, nfa_z). nfa_from_rule (nfa_node g nfa_a)) ` set fragments"
    using st(1) by (simp add: rule_names_def)
  have c2: "label \<in> fst ` set (nonterminal_to_dfas G) \<longleftrightarrow>
       map_of (nonterminal_arcs (h ! a)) label = Some nxt"
    unfolding nt using last by simp
  have c3: "label \<in> fst ` set (nonterminal_to_dfas G) \<longleftrightarrow>
       label \<in> fst ` set (nonterminal_arcs (h ! a))"
  proof -
    have "label \<in> fst ` set (nonterminal_arcs (h ! a)) \<longleftrightarrow>
        map_of (nonterminal_arcs (h ! a)) label \<noteq> None"
      by (simp add: map_of_eq_None_iff)
    also have "\<dots> \<longleftrightarrow> label \<in> set ?rules"
      unfolding nt using last by simp
    finally show ?thesis by simp
  qed
  have c4: "\<exists>t. make_transition token_namespace literal_eval ?R label = Inr (t, ?R) \<and>
            nxt \<in> set (key_targets token_namespace literal_eval ?R ?rules (arcs (h ! a)) t) \<and>
            map_of (ilabel_to_plan (h ! a)) t =
              Some (DFAPlan (last (key_targets token_namespace literal_eval ?R ?rules (arcs (h ! a)) t))) \<and>
            (\<exists>label' nxt'. (label', nxt') \<in> set (arcs (h ! a)) \<and>
               label' \<notin> fst ` set (nonterminal_to_dfas G) \<and>
               make_transition token_namespace literal_eval ?R label' = Inr (t, ?R) \<and>
               map_of (ilabel_to_plan (h ! a)) t = Some (DFAPlan nxt')) \<and>
            ((\<forall>label' nxt'. (label', nxt') \<in> set (arcs (h ! a)) \<and>
                make_transition token_namespace literal_eval ?R label' = Inr (t, ?R) \<longrightarrow>
                label' = label) \<longrightarrow>
             map_of (ilabel_to_plan (h ! a)) t = Some (DFAPlan nxt))"
    if terminal: "label \<notin> fst ` set (nonterminal_to_dfas G)"
  proof -
    from res assms(4) arcs terminal obtain t label' nxt' where
      t: "resolves token_namespace literal_eval rb label t"
        "(label', nxt') \<in> set (arcs s)" "label' \<notin> set ?rules"
        "resolves token_namespace literal_eval rb label' t"
        "map_of (ilabel_to_plan (h ! a)) t = Some (DFAPlan nxt')"
      by (metis (no_types, lifting) list.set_map)
    from t(1,4) p have m: "make_transition token_namespace literal_eval ?R label = Inr (t, ?R)"
      "make_transition token_namespace literal_eval ?R label' = Inr (t, ?R)"
      by (simp_all add: resolves_def)
    have same: "make_transition token_namespace literal_eval rb l = Inr (t, rb) \<longleftrightarrow>
        make_transition token_namespace literal_eval ?R l = Inr (t, ?R)"
      if "(l, n) \<in> set (arcs s)" "l \<notin> set ?rules" for l n
    proof -
      from res that obtain t' where "resolves token_namespace literal_eval rb l t'"
        by blast
      with p have "make_transition token_namespace literal_eval rb l = Inr (t', rb)"
        "make_transition token_namespace literal_eval ?R l = Inr (t', ?R)"
        by (simp_all add: resolves_def)
      then show ?thesis by simp
    qed
    have k: "key_targets token_namespace literal_eval rb ?rules (arcs s) t =
        key_targets token_namespace literal_eval ?R ?rules (arcs s) t"
      by (rule key_targets_cong) (rule same)
    from assms(4) arcs terminal m(1)
    have member: "nxt \<in> set (key_targets token_namespace literal_eval ?R ?rules (arcs s) t)"
      by (force simp: key_targets_def)
    then have "key_targets token_namespace literal_eval ?R ?rules (arcs s) t \<noteq> []"
      by auto
    with compile_arcs_last [OF f, of t] k
    have plan: "map_of (ilabel_to_plan (h ! a)) t =
        Some (DFAPlan (last (key_targets token_namespace literal_eval ?R ?rules (arcs s) t)))"
      by simp
    have only: "map_of (ilabel_to_plan (h ! a)) t = Some (DFAPlan nxt)"
      if "\<forall>label' nxt'. (label', nxt') \<in> set (arcs (h ! a)) \<and>
            make_transition token_namespace literal_eval ?R label' = Inr (t, ?R) \<longrightarrow> label' = label"
    proof -
      from that t(2) m(2) arcs have "label' = label" by auto
      with t(2) assms(4) arcs d have "nxt' = nxt"
        by (metis map_of_is_SomeI option.inject)
      with t(5) show ?thesis by simp
    qed
    show ?thesis
    proof (intro exI [of _ t] conjI impI)
      show "make_transition token_namespace literal_eval ?R label = Inr (t, ?R)"
        by (rule m(1))
      show "nxt \<in> set (key_targets token_namespace literal_eval ?R ?rules (arcs (h ! a)) t)"
        using member by (simp only: arcs)
      show "map_of (ilabel_to_plan (h ! a)) t =
          Some (DFAPlan (last (key_targets token_namespace literal_eval ?R ?rules (arcs (h ! a)) t)))"
        using plan by (simp only: arcs)
      from t(3) have "label' \<notin> fst ` set (nonterminal_to_dfas G)" by simp
      with t(2,5) m(2) arcs
      show "\<exists>label' nxt'. (label', nxt') \<in> set (arcs (h ! a)) \<and>
               label' \<notin> fst ` set (nonterminal_to_dfas G) \<and>
               make_transition token_namespace literal_eval ?R label' = Inr (t, ?R) \<and>
               map_of (ilabel_to_plan (h ! a)) t = Some (DFAPlan nxt')"
        by auto
    next
      assume "\<forall>label' nxt'. (label', nxt') \<in> set (arcs (h ! a)) \<and>
            make_transition token_namespace literal_eval ?R label' = Inr (t, ?R) \<longrightarrow> label' = label"
      then show "map_of (ilabel_to_plan (h ! a)) t = Some (DFAPlan nxt)"
        by (rule only)
    qed
  qed
  have c5: "\<forall>(s :: 'tok DFAState) r s' r'.
       compile_arc token_namespace literal_eval ?rules (label, nxt) (s, r) = Inr (s', r') \<longrightarrow>
       (if label \<in> fst ` set (nonterminal_to_dfas G)
        then map_of (nonterminal_arcs s') label = Some nxt \<and> ilabel_to_plan s' = ilabel_to_plan s
        else nonterminal_arcs s' = nonterminal_arcs s \<and>
          (\<exists>t. make_transition token_namespace literal_eval r label = Inr (t, r') \<and>
               map_of (ilabel_to_plan s') t = Some (DFAPlan nxt)))"
    by (auto simp: update_conv' split: sum.splits)
  from c1 c2 c3 c4 c5 show ?thesis by blast
qed

theorem compile_transitions_witness:
  "generate_grammar sorted_list_of_set token_types unquote nfa_if [(0, 2), (3, 5)] = Inr grammar_if \<and>
   (''stmt'', stmt_states, [0, 1, 2]) \<in> set (nonterminal_to_dfas grammar_if) \<and>
   (1 :: nat) \<in> set [0, 1, 2] \<and>
   (''other'', 2) \<in> set (arcs (stmt_states ! 1)) \<and>
   ''other'' \<in> fst ` set (nonterminal_to_dfas grammar_if) \<and>
   map_of (nonterminal_arcs (stmt_states ! 1)) ''other'' = Some 2 \<and>
   (''other'', other_states, [0, 1, 2]) \<in> set (nonterminal_to_dfas grammar_if) \<and>
   (0 :: nat) \<in> set [0, 1, 2] \<and>
   (''NAME'', 1) \<in> set (arcs (other_states ! 0)) \<and>
   ''NAME'' \<notin> fst ` set (nonterminal_to_dfas grammar_if) \<and>
   ''NAME'' \<notin> fst ` set (nonterminal_arcs (other_states ! 0)) \<and>
   generate_grammar sorted_list_of_set token_types unquote nfa_item [(0, 1)] = Inr grammar_item \<and>
   (''item'', item_states, [0, 1, 2, 3]) \<in> set (nonterminal_to_dfas grammar_item) \<and>
   (0 :: nat) \<in> set [0, 1, 2, 3] \<and>
   (CHR 0x27 # ''if'' @ [CHR 0x27], 1) \<in> set (arcs (item_states ! 0)) \<and>
   CHR 0x27 # ''if'' @ [CHR 0x27] \<notin> fst ` set (nonterminal_to_dfas grammar_item) \<and>
   key_targets token_types unquote (reserved_syntax_strings grammar_item)
       (map fst (nonterminal_to_dfas grammar_item)) (arcs (item_states ! 0))
       (Reserved \<lparr>rs_id = 0, rs_value = ''if''\<rparr>) = [1, 2] \<and>
   map_of (ilabel_to_plan (item_states ! 0)) (Reserved \<lparr>rs_id = 0, rs_value = ''if''\<rparr>) =
     Some (DFAPlan 2)"
proof -
  note g = generate_grammar_if
  have e1: "(''stmt'', stmt_states, [0, 1, 2]) \<in> set (nonterminal_to_dfas grammar_if)"
    and e2: "(''other'', other_states, [0, 1, 2]) \<in> set (nonterminal_to_dfas grammar_if)"
    by (simp_all add: grammar_if_def)
  have a1: "(1 :: nat) \<in> set [0, 1, 2]" and a0: "(0 :: nat) \<in> set [0, 1, 2]" by simp_all
  have l1: "(''other'', 2) \<in> set (arcs (stmt_states ! 1))"
    by (simp add: stmt_states_def)
  have l2: "(''NAME'', 1) \<in> set (arcs (other_states ! 0))"
    by (simp add: other_states_def)
  have k1: "''other'' \<in> fst ` set (nonterminal_to_dfas grammar_if)"
    and k2: "''NAME'' \<notin> fst ` set (nonterminal_to_dfas grammar_if)"
    by (simp_all add: grammar_if_def)
  from compile_transitions [OF g e1 a1 l1] k1
  have r1: "map_of (nonterminal_arcs (stmt_states ! 1)) ''other'' = Some 2" by blast
  from compile_transitions [OF g e2 a0 l2] k2
  have r2: "''NAME'' \<notin> fst ` set (nonterminal_arcs (other_states ! 0))" by blast
  note g' = generate_grammar_item
  let ?label = "CHR 0x27 # ''if'' @ [CHR 0x27]"
  let ?key = "Reserved \<lparr>rs_id = 0, rs_value = ''if''\<rparr> :: nat transition"
  have e3: "(''item'', item_states, [0, 1, 2, 3]) \<in> set (nonterminal_to_dfas grammar_item)"
    by (simp add: grammar_item_def)
  have a3: "(0 :: nat) \<in> set [0, 1, 2, 3]" by simp
  have l3: "(?label, 1) \<in> set (arcs (item_states ! 0))"
    by (simp add: item_states_def)
  have k3: "?label \<notin> fst ` set (nonterminal_to_dfas grammar_item)"
    by (simp add: grammar_item_def)
  have m: "make_transition token_types unquote (reserved_syntax_strings grammar_item) ?label =
      Inr (?key, reserved_syntax_strings grammar_item)"
    by code_simp
  have t: "key_targets token_types unquote (reserved_syntax_strings grammar_item)
       (map fst (nonterminal_to_dfas grammar_item)) (arcs (item_states ! 0)) ?key = [1, 2]"
    by code_simp
  from compile_transitions [OF g' e3 a3 l3] k3 obtain t' where
    "make_transition token_types unquote (reserved_syntax_strings grammar_item) ?label =
       Inr (t', reserved_syntax_strings grammar_item)"
    "map_of (ilabel_to_plan (item_states ! 0)) t' =
       Some (DFAPlan (last (key_targets token_types unquote (reserved_syntax_strings grammar_item)
         (map fst (nonterminal_to_dfas grammar_item)) (arcs (item_states ! 0)) t')))"
    by blast
  with m t have r3: "map_of (ilabel_to_plan (item_states ! 0)) ?key = Some (DFAPlan 2)"
    by simp
  from g e1 a1 l1 k1 r1 e2 a0 l2 k2 r2 g' e3 a3 l3 k3 t r3 show ?thesis by blast
qed

subsection \<open>Reserved strings are shared\<close>

text \<open>
  C4: if two arcs of states of the compiled grammar, of the same rule or of two rules, have
  labels that are no names of rules, begin with a quote and have the same value under
  \<^verbatim>\<open>literal_eval\<close>, then both labels resolve to the same \<^verbatim>\<open>ReservedString\<close>: the object
  that the table of reserved strings of the grammar holds for this value, which has this
  value, is a key of \<^verbatim>\<open>ilabel_to_plan\<close> of both states, and is the only object of the
  table with its identity.
\<close>

theorem reserved_strings_shared:
  fixes G :: "'tok Grammar"
  assumes "generate_grammar ord token_namespace literal_eval g fragments = Inr G"
    and "(rule1, h1, dfas1) \<in> set (nonterminal_to_dfas G)" and "a1 \<in> set dfas1"
    and "(label1, nxt1) \<in> set (arcs (h1 ! a1))"
    and "(rule2, h2, dfas2) \<in> set (nonterminal_to_dfas G)" and "a2 \<in> set dfas2"
    and "(label2, nxt2) \<in> set (arcs (h2 ! a2))"
    and "label1 \<notin> fst ` set (nonterminal_to_dfas G)"
    and "label2 \<notin> fst ` set (nonterminal_to_dfas G)"
    and "hd label1 = CHR 0x22 \<or> hd label1 = CHR 0x27"
    and "hd label2 = CHR 0x22 \<or> hd label2 = CHR 0x27"
    and "literal_eval label1 = Some v" and "literal_eval label2 = Some v"
  shows "\<exists>x. map_of (reserved_syntax_strings G) v = Some x \<and> rs_value x = v \<and>
    make_transition token_namespace literal_eval (reserved_syntax_strings G) label1 =
      Inr (Reserved x, reserved_syntax_strings G) \<and>
    make_transition token_namespace literal_eval (reserved_syntax_strings G) label2 =
      Inr (Reserved x, reserved_syntax_strings G) \<and>
    Reserved x \<in> fst ` set (ilabel_to_plan (h1 ! a1)) \<and>
    Reserved x \<in> fst ` set (ilabel_to_plan (h2 ! a2)) \<and>
    (\<forall>v' x'. map_of (reserved_syntax_strings G) v' = Some x' \<and> rs_id x' = rs_id x \<longrightarrow> x' = x)"
proof -
  let ?R = "reserved_syntax_strings G"
  have key: "\<exists>x. map_of ?R v = Some x \<and>
      make_transition token_namespace literal_eval ?R label = Inr (Reserved x, ?R) \<and>
      Reserved x \<in> fst ` set (ilabel_to_plan (h ! a))"
    if "(rule, h, dfas) \<in> set (nonterminal_to_dfas G)" "a \<in> set dfas"
      "(label, nxt) \<in> set (arcs (h ! a))" "label \<notin> fst ` set (nonterminal_to_dfas G)"
      "hd label = CHR 0x22 \<or> hd label = CHR 0x27" "literal_eval label = Some v"
    for rule h dfas a label nxt
  proof -
    from compiled_terminal [OF assms(1) that(1-4)] obtain t nxt' where
      t: "make_transition token_namespace literal_eval ?R label = Inr (t, ?R)"
        "map_of (ilabel_to_plan (h ! a)) t = Some (DFAPlan nxt')"
      by blast
    have lit: "literal_label label"
    proof (rule ccontr)
      assume n: "\<not> literal_label label"
      from that(5) have "\<not> isalpha (hd label)" by (auto simp: isalpha_def)
      with t(1) show False
        unfolding make_transition_name [OF n] by (auto split: list.splits)
    qed
    from t(1) that(6) obtain x where "map_of ?R v = Some x" "t = Reserved x"
      unfolding make_transition_literal [OF lit] by (auto split: option.splits)
    moreover from t(2) have "t \<in> fst ` set (ilabel_to_plan (h ! a))"
      by (force dest: map_of_SomeD)
    ultimately show ?thesis using t(1) by blast
  qed
  from key [OF assms(2,3,4,8,10,12)] obtain x where
    x: "map_of ?R v = Some x"
      "make_transition token_namespace literal_eval ?R label1 = Inr (Reserved x, ?R)"
      "Reserved x \<in> fst ` set (ilabel_to_plan (h1 ! a1))"
    by blast
  from key [OF assms(5,6,7,9,11,13)] x(1) have
    y: "make_transition token_namespace literal_eval ?R label2 = Inr (Reserved x, ?R)"
      "Reserved x \<in> fst ` set (ilabel_to_plan (h2 ! a2))"
    by auto
  from interned_lookup [OF generate_grammar_state(2) [OF assms(1)] x(1)] x y
  show ?thesis by blast
qed

theorem reserved_strings_shared_witness:
  "generate_grammar sorted_list_of_set token_types unquote nfa_if [(0, 2), (3, 5)] = Inr grammar_if \<and>
   (''stmt'', stmt_states, [0, 1, 2]) \<in> set (nonterminal_to_dfas grammar_if) \<and>
   (CHR 0x27 # ''if'' @ [CHR 0x27], 1) \<in> set (arcs (stmt_states ! 0)) \<and>
   (''other'', other_states, [0, 1, 2]) \<in> set (nonterminal_to_dfas grammar_if) \<and>
   (CHR 0x22 # ''if'' @ [CHR 0x22], 2) \<in> set (arcs (other_states ! 1)) \<and>
   CHR 0x27 # ''if'' @ [CHR 0x27] \<notin> fst ` set (nonterminal_to_dfas grammar_if) \<and>
   CHR 0x22 # ''if'' @ [CHR 0x22] \<notin> fst ` set (nonterminal_to_dfas grammar_if) \<and>
   hd (CHR 0x27 # ''if'' @ [CHR 0x27]) = CHR 0x27 \<and>
   hd (CHR 0x22 # ''if'' @ [CHR 0x22]) = CHR 0x22 \<and>
   unquote (CHR 0x27 # ''if'' @ [CHR 0x27]) = Some ''if'' \<and>
   unquote (CHR 0x22 # ''if'' @ [CHR 0x22]) = Some ''if'' \<and>
   (\<exists>x. map_of (reserved_syntax_strings grammar_if) ''if'' = Some x \<and>
      Reserved x \<in> fst ` set (ilabel_to_plan (stmt_states ! 0)) \<and>
      Reserved x \<in> fst ` set (ilabel_to_plan (other_states ! 1)))"
proof -
  note g = generate_grammar_if
  have e1: "(''stmt'', stmt_states, [0, 1, 2]) \<in> set (nonterminal_to_dfas grammar_if)"
    and e2: "(''other'', other_states, [0, 1, 2]) \<in> set (nonterminal_to_dfas grammar_if)"
    by (simp_all add: grammar_if_def)
  have a0: "(0 :: nat) \<in> set [0, 1, 2]" and a1: "(1 :: nat) \<in> set [0, 1, 2]" by simp_all
  have l1: "(CHR 0x27 # ''if'' @ [CHR 0x27], 1) \<in> set (arcs (stmt_states ! 0))"
    by (simp add: stmt_states_def)
  have l2: "(CHR 0x22 # ''if'' @ [CHR 0x22], 2) \<in> set (arcs (other_states ! 1))"
    by (simp add: other_states_def)
  have k1: "CHR 0x27 # ''if'' @ [CHR 0x27] \<notin> fst ` set (nonterminal_to_dfas grammar_if)"
    and k2: "CHR 0x22 # ''if'' @ [CHR 0x22] \<notin> fst ` set (nonterminal_to_dfas grammar_if)"
    by (simp_all add: grammar_if_def)
  have q1: "hd (CHR 0x27 # ''if'' @ [CHR 0x27]) = CHR 0x22 \<or> hd (CHR 0x27 # ''if'' @ [CHR 0x27]) = CHR 0x27"
    and q2: "hd (CHR 0x22 # ''if'' @ [CHR 0x22]) = CHR 0x22 \<or> hd (CHR 0x22 # ''if'' @ [CHR 0x22]) = CHR 0x27"
    by simp_all
  have v1: "unquote (CHR 0x27 # ''if'' @ [CHR 0x27]) = Some ''if''"
    and v2: "unquote (CHR 0x22 # ''if'' @ [CHR 0x22]) = Some ''if''"
    by (simp_all add: unquote_def)
  from reserved_strings_shared [OF g e1 a0 l1 e2 a1 l2 k1 k2 q1 q2 v1 v2]
  have "\<exists>x. map_of (reserved_syntax_strings grammar_if) ''if'' = Some x \<and>
      Reserved x \<in> fst ` set (ilabel_to_plan (stmt_states ! 0)) \<and>
      Reserved x \<in> fst ` set (ilabel_to_plan (other_states ! 1))"
    by blast
  moreover have "hd (CHR 0x27 # ''if'' @ [CHR 0x27]) = CHR 0x27"
    "hd (CHR 0x22 # ''if'' @ [CHR 0x22]) = CHR 0x22"
    by simp_all
  ultimately show ?thesis using g e1 l1 e2 l2 k1 k2 v1 v2 by blast
qed

end
